theory Spec2Isabelle
  imports Main "HOL-Library.AList"
begin

section \<open>Grammar model (lr1rule.ts)\<close>

text \<open>
  \<^verbatim>\<open>enum LR1_RuleItemType { Terminal = 'T', NonTerminal = 'NT' }\<close> and the class
  \<^verbatim>\<open>LR1_RuleItem { type; value }\<close>. The two fields are called \<open>item_type\<close> and
  \<open>item_value\<close> here, since several classes of the program have a field \<open>value\<close>.
\<close>

datatype LR1_RuleItemType = Terminal | NonTerminal

record LR1_RuleItem =
  item_type :: LR1_RuleItemType
  item_value :: string

text \<open>
  \<^verbatim>\<open>class LR1_Rule { index = -1; lhs = ''; rhs = []; callBackId = '' }\<close>.
  A rule object is identified by its record: \<^verbatim>\<open>calcTable\<close> gives every rule of the
  grammar its position as \<open>rule_index\<close> before the first item is created, so from then on
  two references to rules of the grammar denote the same rule object exactly when the
  records are equal. (The states that an earlier \<^verbatim>\<open>calcTable\<close> has left in the object hold
  the rule objects of the grammar of that time; they are told apart from the present rules
  where the records differ.)
\<close>

record LR1_Rule =
  rule_index :: int
  lhs :: string
  rhs :: "LR1_RuleItem list"
  callBackId :: string

section \<open>JavaScript sets of strings\<close>

text \<open>
  A \<^verbatim>\<open>Set<string>\<close> keeps its elements in insertion order and ignores the insertion
  of an element it already has. It is a list here: \<open>set_add\<close> is \<^verbatim>\<open>Set.add\<close>,
  \<open>new_Set\<close> is \<^verbatim>\<open>new Set(iterable)\<close>, \<open>x \<in> set xs\<close> is \<^verbatim>\<open>Set.has\<close> and
  \<open>length\<close> is \<^verbatim>\<open>Set.size\<close>.
\<close>

definition set_add :: "string \<Rightarrow> string list \<Rightarrow> string list" where
  "set_add x xs = (if x \<in> set xs then xs else xs @ [x])"

definition new_Set :: "string list \<Rightarrow> string list" where
  "new_Set xs = fold set_add xs []"

section \<open>Plain objects as dictionaries\<close>

text \<open>
  The dictionaries of the program (\<^verbatim>\<open>first\<close>, \<^verbatim>\<open>callBacks\<close>, \<^verbatim>\<open>actionEntries\<close>,
  \<^verbatim>\<open>gotoEntries\<close> and the \<^verbatim>\<open>entries\<close> of \<^verbatim>\<open>calcReduceEntries\<close>) are plain objects made
  by \<^verbatim>\<open>{}\<close>, so they inherit the members of \<^verbatim>\<open>Object.prototype\<close>; \<open>proto_names\<close> are the
  names of these members. The own properties of such an object are a map from names to
  values. \<open>js_in k obj\<close> is \<^verbatim>\<open>k in obj\<close>: it holds for an own property and for an
  inherited member alike. A read \<^verbatim>\<open>obj[k]\<close> gives the own property when there is one,
  else the inherited member (a function, and \<^verbatim>\<open>Object.prototype\<close> itself for the name
  \<^verbatim>\<open>__proto__\<close>), else \<^verbatim>\<open>undefined\<close>. None of the inherited members is iterable, and
  none has a property \<^verbatim>\<open>has\<close>, \<^verbatim>\<open>size\<close> or \<^verbatim>\<open>value\<close>.
\<close>

definition proto_names :: "string list" where
  "proto_names =
     [''constructor'', ''__defineGetter__'', ''__defineSetter__'', ''hasOwnProperty'',
      ''__lookupGetter__'', ''__lookupSetter__'', ''isPrototypeOf'', ''propertyIsEnumerable'',
      ''toString'', ''valueOf'', ''__proto__'', ''toLocaleString'']"

definition js_in :: "string \<Rightarrow> (string \<rightharpoonup> 'a) \<Rightarrow> bool" where
  "js_in k obj = (obj k \<noteq> None \<or> k \<in> set proto_names)"

section \<open>Items and states (lr1state.ts)\<close>

text \<open>
  \<^verbatim>\<open>class LR1_StateItem { pos = 0; lookAheadSet = new Set<string>(); rule = null }\<close>.
\<close>

record LR1_StateItem =
  pos :: nat
  lookAheadSet :: "string list"
  rule :: LR1_Rule

text \<open>
  \<^verbatim>\<open>class LR1_State { index = -1; itemSet = []; outEdges = []; inEdges = [] }\<close>.
  Edges are objects shared between the source's \<open>outEdges\<close> and the destination's
  \<open>inEdges\<close>, so a state holds references to them: positions in the store of edges.
\<close>

record LR1_State =
  state_index :: int
  itemSet :: "LR1_StateItem list"
  outEdges :: "nat list"
  inEdges :: "nat list"

definition new_LR1_State :: LR1_State where
  "new_LR1_State = \<lparr>state_index = -1, itemSet = [], outEdges = [], inEdges = []\<rparr>"

text \<open>
  \<^verbatim>\<open>LR1_State.addItem\<close>: the loop over \<open>itemSet\<close> compares position and rule only;
  at the first match it replaces the lookahead set of the existing item by the union and
  stops; without a match the new item is pushed. The first component is the return value.
\<close>

fun addItem_items :: "LR1_StateItem list \<Rightarrow> LR1_StateItem \<Rightarrow> bool \<times> LR1_StateItem list" where
  "addItem_items [] newItem = (True, [newItem])"
| "addItem_items (item # items) newItem =
     (if pos item = pos newItem \<and> rule item = rule newItem
      then (False,
            item\<lparr>lookAheadSet := new_Set (lookAheadSet item @ lookAheadSet newItem)\<rparr> # items)
      else (fst (addItem_items items newItem), item # snd (addItem_items items newItem)))"

definition addItem :: "LR1_State \<Rightarrow> LR1_StateItem \<Rightarrow> bool \<times> LR1_State" where
  "addItem s newItem =
     (fst (addItem_items (itemSet s) newItem),
      s\<lparr>itemSet := snd (addItem_items (itemSet s) newItem)\<rparr>)"

text \<open>The core of an item: its rule and its dot position.\<close>

definition core :: "LR1_StateItem \<Rightarrow> LR1_Rule \<times> nat" where
  "core i = (rule i, pos i)"

definition core_unique :: "LR1_StateItem list \<Rightarrow> bool" where
  "core_unique items = distinct (map core items)"

section \<open>Properties of sets\<close>

lemma set_fold_set_add: "set (fold set_add xs acc) = set acc \<union> set xs"
  by (induction xs arbitrary: acc) (auto simp: set_add_def)

lemma distinct_fold_set_add: "distinct acc \<Longrightarrow> distinct (fold set_add xs acc)"
  by (induction xs arbitrary: acc) (auto simp: set_add_def)

lemma set_new_Set: "set (new_Set xs) = set xs"
  by (simp add: new_Set_def set_fold_set_add)

lemma distinct_new_Set: "distinct (new_Set xs)"
  by (simp add: new_Set_def distinct_fold_set_add)

lemma set_set_add: "set (set_add x xs) = insert x (set xs)"
  by (auto simp: set_add_def)

lemma distinct_set_add: "distinct xs \<Longrightarrow> distinct (set_add x xs)"
  by (auto simp: set_add_def)

section \<open>Properties of addItem\<close>

lemma addItem_items_cores_found:
  "core newItem \<in> set (map core items) \<Longrightarrow>
     map core (snd (addItem_items items newItem)) = map core items"
  by (induction items) (auto simp: core_def)

lemma addItem_items_cores_new:
  "core newItem \<notin> set (map core items) \<Longrightarrow>
     snd (addItem_items items newItem) = items @ [newItem]"
  by (induction items) (auto simp: core_def)

lemma addItem_items_result:
  "fst (addItem_items items newItem) = (core newItem \<notin> set (map core items))"
  by (induction items) (auto simp: core_def)

lemma addItem_items_cores:
  "map core (snd (addItem_items items newItem)) =
     (if core newItem \<in> set (map core items) then map core items
      else map core items @ [core newItem])"
  using addItem_items_cores_found [of newItem items] addItem_items_cores_new [of newItem items]
  by simp

lemma addItem_items_core_unique:
  "core_unique items \<Longrightarrow> core_unique (snd (addItem_items items newItem))"
  unfolding core_unique_def by (simp add: addItem_items_cores)

lemma addItem_items_length:
  "length (snd (addItem_items items newItem)) =
     (if core newItem \<in> set (map core items) then length items else Suc (length items))"
  using arg_cong [OF addItem_items_cores [of items newItem], of length] by (simp split: if_splits)

lemma addItem_items_merge:
  "core_unique items \<Longrightarrow> i < length items \<Longrightarrow> core newItem \<in> set (map core items) \<Longrightarrow>
     snd (addItem_items items newItem) ! i =
       (if core (items ! i) = core newItem
        then (items ! i)\<lparr>lookAheadSet :=
               new_Set (lookAheadSet (items ! i) @ lookAheadSet newItem)\<rparr>
        else items ! i)"
proof (induction items arbitrary: i)
  case Nil
  then show ?case by simp
next
  case (Cons a items)
  show ?case
  proof (cases "core a = core newItem")
    case True
    then have hit: "pos a = pos newItem \<and> rule a = rule newItem"
      by (simp add: core_def)
    from Cons.prems(1) True have notin: "core newItem \<notin> set (map core items)"
      by (auto simp: core_unique_def)
    show ?thesis
    proof (cases i)
      case 0
      with hit True show ?thesis by simp
    next
      case (Suc j)
      with Cons.prems(2) have "j < length items" by simp
      then have "core (items ! j) \<in> set (map core items)" by simp
      with notin have "core (items ! j) \<noteq> core newItem" by metis
      with hit Suc show ?thesis by simp
    qed
  next
    case False
    then have miss: "\<not> (pos a = pos newItem \<and> rule a = rule newItem)"
      by (auto simp: core_def)
    from Cons.prems(1) have cu: "core_unique items"
      by (simp add: core_unique_def)
    from Cons.prems(3) False have mem: "core newItem \<in> set (map core items)"
      by auto
    show ?thesis
    proof (cases i)
      case 0
      with miss False show ?thesis by auto
    next
      case (Suc j)
      with Cons.prems(2) have "j < length items" by simp
      from Cons.IH [OF cu this mem] miss Suc show ?thesis by auto
    qed
  qed
qed


section \<open>Core-uniqueness of item sets\<close>

text \<open>
  Claim C8. A fresh state has no items, and \<open>addItem\<close> keeps the cores of an item set
  pairwise distinct. When the new item is core-equal to an item of the set, \<open>addItem\<close>
  returns false, the number of items is unchanged, the core-equal item gets the union of
  the two lookahead sets and every other item stays as it is; otherwise \<open>addItem\<close>
  returns true and the new item is appended.
\<close>

theorem addItem_core_unique:
  assumes "core_unique (itemSet s)"
  shows "core_unique (itemSet new_LR1_State) \<and>
         core_unique (itemSet (snd (addItem s newItem))) \<and>
         (core newItem \<in> set (map core (itemSet s)) \<longrightarrow>
            \<not> fst (addItem s newItem) \<and>
            length (itemSet (snd (addItem s newItem))) = length (itemSet s) \<and>
            (\<forall>i < length (itemSet s).
               itemSet (snd (addItem s newItem)) ! i =
                 (if core (itemSet s ! i) = core newItem
                  then (itemSet s ! i)\<lparr>lookAheadSet :=
                         new_Set (lookAheadSet (itemSet s ! i) @ lookAheadSet newItem)\<rparr>
                  else itemSet s ! i)) \<and>
            (\<forall>i < length (itemSet s). core (itemSet s ! i) = core newItem \<longrightarrow>
               set (lookAheadSet (itemSet (snd (addItem s newItem)) ! i)) =
                 set (lookAheadSet (itemSet s ! i)) \<union> set (lookAheadSet newItem))) \<and>
         (core newItem \<notin> set (map core (itemSet s)) \<longrightarrow>
            fst (addItem s newItem) \<and>
            itemSet (snd (addItem s newItem)) = itemSet s @ [newItem])"
proof -
  have fresh: "core_unique (itemSet new_LR1_State)"
    by (simp add: new_LR1_State_def core_unique_def)
  have keep: "core_unique (itemSet (snd (addItem s newItem)))"
    using assms by (simp add: addItem_def addItem_items_core_unique)
  have merge: "\<not> fst (addItem s newItem) \<and>
      length (itemSet (snd (addItem s newItem))) = length (itemSet s) \<and>
      (\<forall>i < length (itemSet s).
         itemSet (snd (addItem s newItem)) ! i =
           (if core (itemSet s ! i) = core newItem
            then (itemSet s ! i)\<lparr>lookAheadSet :=
                   new_Set (lookAheadSet (itemSet s ! i) @ lookAheadSet newItem)\<rparr>
            else itemSet s ! i)) \<and>
      (\<forall>i < length (itemSet s). core (itemSet s ! i) = core newItem \<longrightarrow>
         set (lookAheadSet (itemSet (snd (addItem s newItem)) ! i)) =
           set (lookAheadSet (itemSet s ! i)) \<union> set (lookAheadSet newItem))"
    if mem: "core newItem \<in> set (map core (itemSet s))"
  proof -
    have r: "\<not> fst (addItem s newItem)"
      using mem by (simp add: addItem_def addItem_items_result)
    have l: "length (itemSet (snd (addItem s newItem))) = length (itemSet s)"
      using mem by (simp add: addItem_def addItem_items_length)
    have m: "itemSet (snd (addItem s newItem)) ! i =
           (if core (itemSet s ! i) = core newItem
            then (itemSet s ! i)\<lparr>lookAheadSet :=
                   new_Set (lookAheadSet (itemSet s ! i) @ lookAheadSet newItem)\<rparr>
            else itemSet s ! i)" if "i < length (itemSet s)" for i
      using addItem_items_merge [OF assms that mem] by (simp add: addItem_def)
    have u: "set (lookAheadSet (itemSet (snd (addItem s newItem)) ! i)) =
           set (lookAheadSet (itemSet s ! i)) \<union> set (lookAheadSet newItem)"
      if "i < length (itemSet s)" "core (itemSet s ! i) = core newItem" for i
      using m [OF that(1)] that(2) by (simp add: set_new_Set)
    from r l m u show ?thesis by blast
  qed
  have push: "fst (addItem s newItem) \<and>
      itemSet (snd (addItem s newItem)) = itemSet s @ [newItem]"
    if "core newItem \<notin> set (map core (itemSet s))"
    using that by (simp add: addItem_def addItem_items_result addItem_items_cores_new)
  from fresh keep merge push show ?thesis by blast
qed

text \<open>
  The theorem at the state with the single item \<open>[s = . ":a", {END}]\<close> and the new item
  \<open>[s = . ":a", {:b}]\<close>: the lookahead sets are merged.
\<close>

theorem addItem_core_unique_witness:
  "core_unique (itemSet (new_LR1_State\<lparr>itemSet :=
       [\<lparr>pos = 0, lookAheadSet = [''END''],
         rule = \<lparr>rule_index = 0, lhs = ''s'',
                 rhs = [\<lparr>item_type = Terminal, item_value = '':a''\<rparr>],
                 callBackId = ''''\<rparr>\<rparr>]\<rparr>)) \<and>
   addItem (new_LR1_State\<lparr>itemSet :=
       [\<lparr>pos = 0, lookAheadSet = [''END''],
         rule = \<lparr>rule_index = 0, lhs = ''s'',
                 rhs = [\<lparr>item_type = Terminal, item_value = '':a''\<rparr>],
                 callBackId = ''''\<rparr>\<rparr>]\<rparr>)
     \<lparr>pos = 0, lookAheadSet = ['':b''],
      rule = \<lparr>rule_index = 0, lhs = ''s'',
              rhs = [\<lparr>item_type = Terminal, item_value = '':a''\<rparr>],
              callBackId = ''''\<rparr>\<rparr>
   = (False, new_LR1_State\<lparr>itemSet :=
       [\<lparr>pos = 0, lookAheadSet = [''END'', '':b''],
         rule = \<lparr>rule_index = 0, lhs = ''s'',
                 rhs = [\<lparr>item_type = Terminal, item_value = '':a''\<rparr>],
                 callBackId = ''''\<rparr>\<rparr>]\<rparr>)"
  using addItem_core_unique [of
      "new_LR1_State\<lparr>itemSet :=
       [\<lparr>pos = 0, lookAheadSet = [''END''],
         rule = \<lparr>rule_index = 0, lhs = ''s'',
                 rhs = [\<lparr>item_type = Terminal, item_value = '':a''\<rparr>],
                 callBackId = ''''\<rparr>\<rparr>]\<rparr>"
      "\<lparr>pos = 0, lookAheadSet = ['':b''],
      rule = \<lparr>rule_index = 0, lhs = ''s'',
              rhs = [\<lparr>item_type = Terminal, item_value = '':a''\<rparr>],
              callBackId = ''''\<rparr>\<rparr>"]
  by (simp add: core_unique_def core_def addItem_def new_Set_def set_add_def new_LR1_State_def)


section \<open>Failures\<close>

text \<open>
  Every way in which the program leaves a method without returning is a value.
  \<^item> \<open>EmptyGrammar\<close>: \<^verbatim>\<open>LR1Error('cannot calculate table without any production rule')\<close>.
  \<^item> \<open>UndefinedNonTerminal rule v\<close>: \<^verbatim>\<open>LR1Error('rule [' + rule.toString() + '] uses
    undefined non-terminal ' + v)\<close>.
  \<^item> \<open>ReduceReduceConflict r1 r2\<close>: \<^verbatim>\<open>LR1Error('reduce/reduce conflict for rules ' + r1 +
    ... + r2 + ...)\<close>.
  \<^item> \<open>ReduceReduceUndefined r2\<close>: the same error when \<open>r1\<close> is \<^verbatim>\<open>undefined\<close>, read from an
    inherited member.
  \<^item> \<open>TableNotGenerated\<close>, \<open>TableHasNoRules\<close>: the two \<^verbatim>\<open>LR1Error\<close>s at the start of
    \<^verbatim>\<open>parse\<close>.
  \<^item> \<open>UnexpectedToken tok\<close>, \<open>UnimplementedCallback id\<close>, \<open>ExpectedEND\<close>: the three
    calls of \<^verbatim>\<open>lexer.error\<close> in \<^verbatim>\<open>parse\<close>.
  \<^item> \<open>CallbackFailure msg\<close>: an exception thrown by a user callback.
  \<^item> \<open>TypeError\<close>: a property read on \<^verbatim>\<open>undefined\<close> or \<^verbatim>\<open>null\<close>, the call of a value
    that is not a function, or the iteration of a value that is not iterable.
  \<^item> \<open>ProcessExit\<close>: \<^verbatim>\<open>process.exit(-1)\<close>; the process ends, nothing is thrown.
\<close>

datatype failure =
    EmptyGrammar
  | UndefinedNonTerminal LR1_Rule string
  | ReduceReduceConflict int int
  | ReduceReduceUndefined int
  | TableNotGenerated
  | TableHasNoRules
  | UnexpectedToken string
  | UnimplementedCallback string
  | ExpectedEND
  | CallbackFailure string
  | TypeError
  | ProcessExit

section \<open>The FIRST engine (LR1.calcFirst)\<close>

text \<open>
  The own properties of the dictionary \<^verbatim>\<open>first: { [id: string]: Set<string> }\<close> are an
  association list in insertion order: \<open>map_of first id\<close> is the own property \<open>id\<close>, and
  \<open>AList.update\<close> assigns, in place for a key that is present and at the end otherwise.
\<close>

type_synonym first_map = "(string \<times> string list) list"

text \<open>
  The first loop of \<^verbatim>\<open>calcFirst\<close>: an empty set for every left-hand side \<open>lhs\<close> for which
  \<^verbatim>\<open>lhs in this.first\<close> is false.
\<close>

fun calcFirst_init :: "LR1_Rule list \<Rightarrow> first_map \<Rightarrow> first_map" where
  "calcFirst_init [] fm = fm"
| "calcFirst_init (r # rs) fm =
     calcFirst_init rs
       (if js_in (lhs r) (map_of fm) = False then AList.update (lhs r) [] fm else fm)"

text \<open>
  The body of the inner \<^verbatim>\<open>for (const rule of this.rules)\<close> loop, on the pair of the
  dictionary and the flag \<open>changed\<close>. Where \<^verbatim>\<open>this.first[rule.lhs]\<close> or
  \<^verbatim>\<open>this.first[rhs0.value]\<close> is not an own property, the value read is \<^verbatim>\<open>undefined\<close> or an
  inherited member: spreading it, and calling its \<^verbatim>\<open>has\<close>, throws a \<open>TypeError\<close>.
\<close>

definition calcFirst_rule :: "LR1_Rule \<Rightarrow> first_map \<times> bool \<Rightarrow> failure + first_map \<times> bool" where
  "calcFirst_rule r st =
     (case rhs r of
        [] \<Rightarrow> Inr st
      | rhs0 # _ \<Rightarrow>
          (case map_of (fst st) (lhs r) of
             None \<Rightarrow> Inl TypeError
           | Some fl \<Rightarrow>
               if item_type rhs0 = NonTerminal
               then (case map_of (fst st) (item_value rhs0) of
                       None \<Rightarrow> Inl TypeError
                     | Some fy \<Rightarrow>
                         Inr (AList.update (lhs r) (new_Set (fl @ fy)) (fst st),
                              if length (new_Set (fl @ fy)) > length fl then True else snd st))
               else Inr (AList.update (lhs r) (set_add (item_value rhs0) fl) (fst st),
                         if item_value rhs0 \<notin> set fl then True else snd st)))"

fun calcFirst_pass :: "LR1_Rule list \<Rightarrow> first_map \<times> bool \<Rightarrow> failure + first_map \<times> bool" where
  "calcFirst_pass [] st = Inr st"
| "calcFirst_pass (r # rs) st =
     (case calcFirst_rule r st of
        Inl e \<Rightarrow> Inl e
      | Inr st' \<Rightarrow> calcFirst_pass rs st')"

text \<open>
  The \<^verbatim>\<open>do { changed = false; ... } while (changed)\<close> loop. \<open>None\<close> stands for a loop
  that never ends.
\<close>

partial_function (option) calcFirst_loop :: "LR1_Rule list \<Rightarrow> first_map \<Rightarrow> (failure + first_map) option" where
  "calcFirst_loop rs fm =
     (case calcFirst_pass rs (fm, False) of
        Inl e \<Rightarrow> Some (Inl e)
      | Inr st \<Rightarrow> if snd st then calcFirst_loop rs (fst st) else Some (Inr (fst st)))"

definition calcFirst :: "LR1_Rule list \<Rightarrow> first_map \<Rightarrow> (failure + first_map) option" where
  "calcFirst rs fm = calcFirst_loop rs (calcFirst_init rs fm)"


section \<open>Properties of the FIRST engine\<close>

text \<open>
  \<open>first_vals\<close>: the elements of all sets of a dictionary. \<open>first_wf\<close>: its sets are
  duplicate-free, as every \<^verbatim>\<open>Set\<close> is. \<open>terminals\<close>: the terminals that occur in the
  right-hand sides of a grammar. \<open>first_size\<close>: the sum of the sizes of the sets, the
  measure of the loop. \<open>first_grows fm fm'\<close>: \<open>fm'\<close> has the keys of \<open>fm\<close>, in the same order,
  and every set of \<open>fm\<close> is included in the set of \<open>fm'\<close> for the same key.
\<close>

definition first_vals :: "first_map \<Rightarrow> string set" where
  "first_vals fm = \<Union> (set ` snd ` set fm)"

definition first_wf :: "first_map \<Rightarrow> bool" where
  "first_wf fm = list_all (\<lambda>kv. distinct (snd kv)) fm"

definition terminals :: "LR1_Rule list \<Rightarrow> string set" where
  "terminals rs = {item_value x |x r. r \<in> set rs \<and> x \<in> set (rhs r) \<and> item_type x = Terminal}"

definition first_size :: "first_map \<Rightarrow> nat" where
  "first_size fm = sum_list (map (\<lambda>kv. card (set (snd kv))) fm)"

definition first_grows :: "first_map \<Rightarrow> first_map \<Rightarrow> bool" where
  "first_grows fm fm' = (map fst fm' = map fst fm \<and>
     (\<forall>k v. map_of fm k = Some v \<longrightarrow> (\<exists>v'. map_of fm' k = Some v' \<and> set v \<subseteq> set v')))"

lemma finite_terminals: "finite (terminals rs)"
proof -
  have "terminals rs \<subseteq> item_value ` (\<Union>r \<in> set rs. set (rhs r))"
    by (auto simp: terminals_def)
  then show ?thesis by (rule finite_subset) simp
qed

lemma update_size:
  "map_of al k = Some v0 \<Longrightarrow> set v0 \<subseteq> set v \<Longrightarrow>
     first_size (AList.update k v al) = first_size al + (card (set v) - card (set v0))"
proof (induction al)
  case Nil then show ?case by simp
next
  case (Cons a al)
  obtain k' w where a: "a = (k', w)" by (cases a)
  show ?case
  proof (cases "k' = k")
    case True
    with Cons.prems a have "w = v0" by simp
    moreover have "card (set v0) \<le> card (set v)" using Cons.prems(2) by (simp add: card_mono)
    ultimately show ?thesis using True a by (simp add: first_size_def)
  next
    case False
    with Cons a show ?thesis by (simp add: first_size_def)
  qed
qed

lemma update_keys_present:
  "map_of al k = Some v0 \<Longrightarrow> map fst (AList.update k v al) = map fst al"
  by (induction al) (auto split: if_splits)

lemma update_vals:
  "map_of al k = Some v0 \<Longrightarrow> set v0 \<subseteq> set v \<Longrightarrow>
     first_vals (AList.update k v al) = first_vals al \<union> set v"
  by (induction al) (auto simp: first_vals_def split: if_splits)

lemma update_wf:
  "first_wf al \<Longrightarrow> distinct v \<Longrightarrow> first_wf (AList.update k v al)"
  by (induction al) (auto simp: first_wf_def)

lemma map_of_vals: "map_of al k = Some v \<Longrightarrow> set v \<subseteq> first_vals al"
  by (induction al) (auto simp: first_vals_def split: if_splits)

lemma map_of_wf: "first_wf al \<Longrightarrow> map_of al k = Some v \<Longrightarrow> distinct v"
  by (induction al) (auto simp: first_wf_def split: if_splits)

lemma update_grows:
  "map_of al k = Some v0 \<Longrightarrow> set v0 \<subseteq> set v \<Longrightarrow> first_grows al (AList.update k v al)"
  unfolding first_grows_def
  by (simp add: update_keys_present AList.update_conv')

lemma first_grows_refl: "first_grows fm fm"
  by (simp add: first_grows_def)

lemma first_grows_trans: "first_grows a b \<Longrightarrow> first_grows b c \<Longrightarrow> first_grows a c"
proof -
  assume ab: "first_grows a b" and bc: "first_grows b c"
  have "map fst c = map fst a" using ab bc by (simp add: first_grows_def)
  moreover have "\<exists>v'. map_of c k = Some v' \<and> set v \<subseteq> set v'" if "map_of a k = Some v" for k v
  proof -
    from ab that obtain w where w: "map_of b k = Some w" "set v \<subseteq> set w"
      unfolding first_grows_def by blast
    from bc w(1) obtain u where u: "map_of c k = Some u" "set w \<subseteq> set u"
      unfolding first_grows_def by blast
    from w(2) u show ?thesis by blast
  qed
  ultimately show ?thesis unfolding first_grows_def by blast
qed


lemma fold_set_add_distinct: "distinct (acc @ xs) \<Longrightarrow> fold set_add xs acc = acc @ xs"
  by (induction xs arbitrary: acc) (auto simp: set_add_def)

lemma fold_set_add_subset: "set ys \<subseteq> set acc \<Longrightarrow> fold set_add ys acc = acc"
  by (induction ys arbitrary: acc) (auto simp: set_add_def)

lemma new_Set_append: "new_Set (xs @ ys) = fold set_add ys (new_Set xs)"
  by (simp add: new_Set_def)

lemma new_Set_distinct_id: "distinct xs \<Longrightarrow> new_Set xs = xs"
  using fold_set_add_distinct [of "[]" xs] by (simp add: new_Set_def)

lemma length_new_Set: "length (new_Set xs) = card (set xs)"
  using distinct_card [OF distinct_new_Set, of xs] by (simp add: set_new_Set)

lemma new_Set_no_growth:
  assumes "distinct fl" "\<not> length (new_Set (fl @ fy)) > length fl"
  shows "new_Set (fl @ fy) = fl \<and> set fy \<subseteq> set fl"
proof -
  have "card (set fl \<union> set fy) \<le> card (set fl)"
    using assms by (simp add: length_new_Set distinct_card)
  moreover have "card (set fl) \<le> card (set fl \<union> set fy)"
    by (simp add: card_mono)
  ultimately have "card (set fl \<union> set fy) = card (set fl)" by simp
  then have "set fl \<union> set fy = set fl"
    by (metis List.finite_set Un_upper1 card_subset_eq finite_UnI)
  then have sub: "set fy \<subseteq> set fl" by blast
  then show ?thesis
    using assms(1) by (simp add: new_Set_append new_Set_distinct_id fold_set_add_subset)
qed

text \<open>
  \<open>sound_rule fm r\<close>: the inclusion of FIRST soundness for the rule \<open>r\<close> in the dictionary
  \<open>fm\<close>.
\<close>

definition sound_rule :: "first_map \<Rightarrow> LR1_Rule \<Rightarrow> bool" where
  "sound_rule fm r =
     (case rhs r of
        [] \<Rightarrow> True
      | x # _ \<Rightarrow>
          (case map_of fm (lhs r) of
             None \<Rightarrow> False
           | Some fa \<Rightarrow>
               if item_type x = Terminal then item_value x \<in> set fa
               else (case map_of fm (item_value x) of
                       None \<Rightarrow> False
                     | Some fx \<Rightarrow> set fx \<subseteq> set fa)))"

lemma calcFirst_rule_grows:
  assumes "calcFirst_rule r (fm, c) = Inr (fm', c')"
  shows "first_grows fm fm'"
  using assms unfolding calcFirst_rule_def
  by (auto split: list.splits option.splits if_splits
      intro!: update_grows first_grows_refl simp: set_new_Set set_set_add)

lemma calcFirst_rule_flag:
  assumes "calcFirst_rule r (fm, c) = Inr (fm', c')" "c"
  shows "c'"
  using assms unfolding calcFirst_rule_def
  by (auto split: list.splits option.splits if_splits)

lemma calcFirst_rule_size:
  assumes "calcFirst_rule r (fm, c) = Inr (fm', c')"
  shows "first_size fm \<le> first_size fm' \<and> (c' \<longrightarrow> c \<or> first_size fm < first_size fm')"
proof (cases "rhs r")
  case Nil
  with assms show ?thesis by (simp add: calcFirst_rule_def)
next
  case (Cons x xs)
  from assms Cons obtain fl where fl: "map_of fm (lhs r) = Some fl"
    by (auto simp: calcFirst_rule_def split: option.splits)
  show ?thesis
  proof (cases "item_type x = NonTerminal")
    case True
    from assms Cons fl True obtain fy where fy: "map_of fm (item_value x) = Some fy"
      by (auto simp: calcFirst_rule_def split: option.splits)
    from assms Cons fl True fy have
      fm': "fm' = AList.update (lhs r) (new_Set (fl @ fy)) fm" and
      c': "c' = (if length (new_Set (fl @ fy)) > length fl then True else c)"
      by (auto simp: calcFirst_rule_def)
    have sub: "set fl \<subseteq> set (new_Set (fl @ fy))" by (simp add: set_new_Set)
    have sz: "first_size fm' = first_size fm + (card (set (new_Set (fl @ fy))) - card (set fl))"
      unfolding fm' by (rule update_size [OF fl sub])
    have "card (set fl) \<le> length fl" by (rule card_length)
    then have "length (new_Set (fl @ fy)) > length fl \<Longrightarrow>
        card (set (new_Set (fl @ fy))) - card (set fl) > 0"
      by (simp add: length_new_Set set_new_Set)
    with sz c' show ?thesis by (auto split: if_splits)
  next
    case False
    from assms Cons fl False have
      fm': "fm' = AList.update (lhs r) (set_add (item_value x) fl) fm" and
      c': "c' = (if item_value x \<notin> set fl then True else c)"
      by (auto simp: calcFirst_rule_def)
    have sub: "set fl \<subseteq> set (set_add (item_value x) fl)" by (auto simp: set_set_add)
    have sz: "first_size fm' = first_size fm + (card (set (set_add (item_value x) fl)) - card (set fl))"
      unfolding fm' by (rule update_size [OF fl sub])
    have "item_value x \<notin> set fl \<Longrightarrow> card (set (set_add (item_value x) fl)) - card (set fl) > 0"
      by (simp add: set_set_add)
    with sz c' show ?thesis by (auto split: if_splits)
  qed
qed

lemma calcFirst_rule_vals:
  assumes "calcFirst_rule r (fm, c) = Inr (fm', c')"
  shows "first_vals fm' \<subseteq> first_vals fm \<union> terminals [r]"
proof (cases "rhs r")
  case Nil
  with assms show ?thesis by (simp add: calcFirst_rule_def)
next
  case (Cons x xs)
  from assms Cons obtain fl where fl: "map_of fm (lhs r) = Some fl"
    by (auto simp: calcFirst_rule_def split: option.splits)
  show ?thesis
  proof (cases "item_type x = NonTerminal")
    case True
    from assms Cons fl True obtain fy where fy: "map_of fm (item_value x) = Some fy"
      by (auto simp: calcFirst_rule_def split: option.splits)
    from assms Cons fl True fy have
      fm': "fm' = AList.update (lhs r) (new_Set (fl @ fy)) fm"
      by (auto simp: calcFirst_rule_def)
    have sub: "set fl \<subseteq> set (new_Set (fl @ fy))" by (simp add: set_new_Set)
    have "first_vals fm' = first_vals fm \<union> set (new_Set (fl @ fy))"
      unfolding fm' by (rule update_vals [OF fl sub])
    with map_of_vals [OF fl] map_of_vals [OF fy] show ?thesis
      by (auto simp: set_new_Set)
  next
    case False
    then have t: "item_type x = Terminal" by (cases "item_type x") auto
    from assms Cons fl False have
      fm': "fm' = AList.update (lhs r) (set_add (item_value x) fl) fm"
      by (auto simp: calcFirst_rule_def)
    have sub: "set fl \<subseteq> set (set_add (item_value x) fl)" by (auto simp: set_set_add)
    have "first_vals fm' = first_vals fm \<union> set (set_add (item_value x) fl)"
      unfolding fm' by (rule update_vals [OF fl sub])
    moreover have "item_value x \<in> terminals [r]"
      using Cons t by (auto simp: terminals_def)
    ultimately show ?thesis using map_of_vals [OF fl]
      by (auto simp: set_set_add)
  qed
qed

lemma calcFirst_rule_wf:
  assumes "calcFirst_rule r (fm, c) = Inr (fm', c')" "first_wf fm"
  shows "first_wf fm'"
  using assms unfolding calcFirst_rule_def
  by (auto split: list.splits option.splits if_splits
      intro!: update_wf distinct_new_Set distinct_set_add dest: map_of_wf)

lemma calcFirst_rule_unchanged:
  assumes "calcFirst_rule r (fm, c) = Inr (fm', False)" "first_wf fm"
  shows "fm' = fm \<and> sound_rule fm r"
proof (cases "rhs r")
  case Nil
  with assms show ?thesis by (simp add: calcFirst_rule_def sound_rule_def)
next
  case (Cons x xs)
  from assms Cons obtain fl where fl: "map_of fm (lhs r) = Some fl"
    by (auto simp: calcFirst_rule_def split: option.splits)
  have dfl: "distinct fl" by (rule map_of_wf [OF assms(2) fl])
  show ?thesis
  proof (cases "item_type x = NonTerminal")
    case True
    from assms Cons fl True obtain fy where fy: "map_of fm (item_value x) = Some fy"
      by (auto simp: calcFirst_rule_def split: option.splits)
    from assms Cons fl True fy have
      fm': "fm' = AList.update (lhs r) (new_Set (fl @ fy)) fm" and
      ng: "\<not> length (new_Set (fl @ fy)) > length fl"
      by (auto simp: calcFirst_rule_def split: if_splits)
    from new_Set_no_growth [OF dfl ng] have eq: "new_Set (fl @ fy) = fl" and sub: "set fy \<subseteq> set fl"
      by simp_all
    have "fm' = fm" unfolding fm' eq by (rule AList.update_triv [OF fl])
    moreover have "sound_rule fm r"
      using Cons fl fy True sub by (simp add: sound_rule_def)
    ultimately show ?thesis by simp
  next
    case False
    then have t: "item_type x = Terminal" by (cases "item_type x") auto
    from assms Cons fl False have
      fm': "fm' = AList.update (lhs r) (set_add (item_value x) fl) fm" and
      mem: "item_value x \<in> set fl"
      by (auto simp: calcFirst_rule_def split: if_splits)
    from mem have eq: "set_add (item_value x) fl = fl" by (simp add: set_add_def)
    have "fm' = fm" unfolding fm' eq by (rule AList.update_triv [OF fl])
    moreover have "sound_rule fm r"
      using Cons fl t mem by (simp add: sound_rule_def)
    ultimately show ?thesis by simp
  qed
qed


lemma calcFirst_pass_props:
  "calcFirst_pass rs (fm, c) = Inr (fm', c') \<Longrightarrow>
     first_grows fm fm' \<and> first_size fm \<le> first_size fm' \<and> (c \<longrightarrow> c') \<and>
     (c' \<longrightarrow> c \<or> first_size fm < first_size fm') \<and>
     first_vals fm' \<subseteq> first_vals fm \<union> terminals rs \<and>
     (first_wf fm \<longrightarrow> first_wf fm')"
proof (induction rs arbitrary: fm c)
  case Nil
  then show ?case by (simp add: first_grows_refl)
next
  case (Cons r rs)
  from Cons.prems obtain fm1 c1 where
    step: "calcFirst_rule r (fm, c) = Inr (fm1, c1)" and
    rest: "calcFirst_pass rs (fm1, c1) = Inr (fm', c')"
    by (auto split: sum.splits)
  note ih = Cons.IH [OF rest]
  have t: "terminals [r] \<union> terminals rs = terminals (r # rs)"
    by (auto simp: terminals_def)
  have g: "first_grows fm fm'"
    using calcFirst_rule_grows [OF step] ih by (blast intro: first_grows_trans)
  have sz: "first_size fm \<le> first_size fm'"
    using calcFirst_rule_size [OF step] ih by linarith
  have fl: "c \<longrightarrow> c'"
    using calcFirst_rule_flag [OF step] ih by blast
  have st: "c' \<longrightarrow> c \<or> first_size fm < first_size fm'"
    using calcFirst_rule_size [OF step] ih by (metis le_less_trans less_le_trans)
  have v: "first_vals fm' \<subseteq> first_vals fm \<union> terminals (r # rs)"
    using calcFirst_rule_vals [OF step] ih t by blast
  have w: "first_wf fm \<longrightarrow> first_wf fm'"
    using calcFirst_rule_wf [OF step] ih by blast
  from g sz fl st v w show ?case by blast
qed

lemma calcFirst_pass_unchanged:
  "calcFirst_pass rs (fm, c) = Inr (fm', False) \<Longrightarrow> first_wf fm \<Longrightarrow>
     fm' = fm \<and> (\<forall>r \<in> set rs. sound_rule fm r)"
proof (induction rs arbitrary: c)
  case Nil
  then show ?case by simp
next
  case (Cons r rs)
  from Cons.prems(1) obtain fm1 c1 where
    step: "calcFirst_rule r (fm, c) = Inr (fm1, c1)" and
    rest: "calcFirst_pass rs (fm1, c1) = Inr (fm', False)"
    by (auto split: sum.splits)
  from calcFirst_pass_props [OF rest] have "\<not> c1" by blast
  with step have step': "calcFirst_rule r (fm, c) = Inr (fm1, False)" by simp
  from calcFirst_rule_unchanged [OF step' Cons.prems(2)] have eq: "fm1 = fm" and s: "sound_rule fm r"
    by simp_all
  from rest eq \<open>\<not> c1\<close> have "calcFirst_pass rs (fm, c1) = Inr (fm', False)" by simp
  from Cons.IH [OF this Cons.prems(2)] s show ?case by simp
qed

lemma first_size_bound:
  "finite U \<Longrightarrow> first_vals fm \<subseteq> U \<Longrightarrow> first_size fm \<le> length fm * card U"
proof (induction fm)
  case Nil
  then show ?case by (simp add: first_size_def)
next
  case (Cons a fm)
  from Cons.prems(2) have a: "set (snd a) \<subseteq> U" and r: "first_vals fm \<subseteq> U"
    by (auto simp: first_vals_def)
  from a Cons.prems(1) have "card (set (snd a)) \<le> card U" by (simp add: card_mono)
  with Cons.IH [OF Cons.prems(1) r] show ?case by (simp add: first_size_def)
qed

lemma first_grows_length: "first_grows fm fm' \<Longrightarrow> length fm' = length fm"
  unfolding first_grows_def using map_eq_imp_length_eq by blast

text \<open>
  \<open>first_defined rs fm\<close>: the dictionary has an own property for every left-hand side and
  for every leftmost non-terminal of the rules, so that a pass throws no \<open>TypeError\<close>.
  \<open>leftmost_defined rs\<close>: every leftmost non-terminal is a left-hand side, as the check at
  the start of \<open>calcTable\<close> ensures.
\<close>

definition first_defined :: "LR1_Rule list \<Rightarrow> first_map \<Rightarrow> bool" where
  "first_defined rs fm =
     (\<forall>r \<in> set rs. map_of fm (lhs r) \<noteq> None \<and>
        (case rhs r of
           [] \<Rightarrow> True
         | x # _ \<Rightarrow> item_type x = NonTerminal \<longrightarrow> map_of fm (item_value x) \<noteq> None))"

definition leftmost_defined :: "LR1_Rule list \<Rightarrow> bool" where
  "leftmost_defined rs =
     (\<forall>r \<in> set rs.
        case rhs r of
          [] \<Rightarrow> True
        | x # _ \<Rightarrow> item_type x = NonTerminal \<longrightarrow> item_value x \<in> lhs ` set rs)"

text \<open>\<open>plain_lhs\<close>: no left-hand side is the name of a member of \<^verbatim>\<open>Object.prototype\<close>.\<close>

definition plain_lhs :: "LR1_Rule list \<Rightarrow> bool" where
  "plain_lhs rs = (\<forall>r \<in> set rs. lhs r \<notin> set proto_names)"

lemma calcFirst_init_keys:
  "fst ` set (calcFirst_init rs fm) = fst ` set fm \<union> (lhs ` set rs - set proto_names)"
  by (induction rs arbitrary: fm) (auto simp: AList.dom_update map_of_eq_None_iff js_in_def)

lemma update_vals_empty: "first_vals (AList.update k [] fm) \<subseteq> first_vals fm"
  by (induction fm) (auto simp: first_vals_def)

lemma calcFirst_init_vals: "first_vals (calcFirst_init rs fm) \<subseteq> first_vals fm"
proof (induction rs arbitrary: fm)
  case Nil
  then show ?case by simp
next
  case (Cons r rs)
  show ?case using Cons.IH [of fm] Cons.IH [of "AList.update (lhs r) [] fm"]
      update_vals_empty [of "lhs r" fm] by (cases "js_in (lhs r) (map_of fm)") auto
qed

lemma calcFirst_init_wf: "first_wf fm \<Longrightarrow> first_wf (calcFirst_init rs fm)"
  by (induction rs arbitrary: fm) (auto simp: update_wf)

lemma map_of_defined: "(map_of fm k \<noteq> None) = (k \<in> fst ` set fm)"
  by (simp add: map_of_eq_None_iff)

lemma calcFirst_init_defined:
  assumes l: "leftmost_defined rs" and p: "plain_lhs rs"
  shows "first_defined rs (calcFirst_init rs fm)"
proof -
  from p have "lhs ` set rs - set proto_names = lhs ` set rs"
    unfolding plain_lhs_def by auto
  then have k: "fst ` set (calcFirst_init rs fm) = fst ` set fm \<union> lhs ` set rs"
    unfolding calcFirst_init_keys by simp
  from l show ?thesis
    unfolding leftmost_defined_def first_defined_def map_of_defined k
    by (auto split: list.splits)
qed

lemma first_grows_defined:
  "first_grows fm fm' \<Longrightarrow> first_defined rs fm \<Longrightarrow> first_defined rs fm'"
proof -
  assume g: "first_grows fm fm'" and d: "first_defined rs fm"
  from g have "map fst fm' = map fst fm" by (simp add: first_grows_def)
  then have "fst ` set fm' = fst ` set fm" by (metis set_map)
  with d show ?thesis unfolding first_defined_def map_of_defined
    by (auto split: list.splits)
qed

lemma first_defined_mono: "first_defined rs fm \<Longrightarrow> set rs' \<subseteq> set rs \<Longrightarrow> first_defined rs' fm"
  unfolding first_defined_def by blast

lemma calcFirst_rule_defined:
  "first_defined [r] fm \<Longrightarrow> \<exists>st'. calcFirst_rule r (fm, c) = Inr st'"
  unfolding first_defined_def calcFirst_rule_def
  by (auto split: list.splits option.splits)

lemma calcFirst_pass_defined:
  "first_defined rs fm \<Longrightarrow> \<exists>st'. calcFirst_pass rs (fm, c) = Inr st'"
proof (induction rs arbitrary: fm c)
  case Nil
  then show ?case by simp
next
  case (Cons r rs)
  from Cons.prems have "first_defined [r] fm" by (rule first_defined_mono) simp
  from calcFirst_rule_defined [OF this] obtain fm1 c1 where
    step: "calcFirst_rule r (fm, c) = Inr (fm1, c1)" by fastforce
  from Cons.prems have "first_defined rs fm" by (rule first_defined_mono) auto
  with calcFirst_rule_grows [OF step] have "first_defined rs fm1"
    by (rule first_grows_defined)
  from Cons.IH [OF this, of c1] step show ?case by simp
qed

lemma calcFirst_loop_total:
  assumes "finite U" "terminals rs \<subseteq> U"
  shows "first_vals fm \<subseteq> U \<Longrightarrow>
     \<exists>res. calcFirst_loop rs fm = Some res \<and>
       (\<forall>f. res = Inr f \<longrightarrow>
          first_grows fm f \<and> first_vals f \<subseteq> U \<and>
          (first_wf fm \<longrightarrow> first_wf f \<and> calcFirst_pass rs (f, False) = Inr (f, False))) \<and>
       (first_defined rs fm \<longrightarrow> (\<exists>f. res = Inr f))"
proof (induction fm rule: measure_induct_rule [where f = "\<lambda>fm. length fm * card U - first_size fm"])
  case (less fm)
  show ?case
  proof (cases "calcFirst_pass rs (fm, False)")
    case (Inl e)
    then have "calcFirst_loop rs fm = Some (Inl e)"
      by (subst calcFirst_loop.simps) simp
    moreover have "\<not> first_defined rs fm"
      using calcFirst_pass_defined [of rs fm False] Inl by auto
    ultimately show ?thesis by simp
  next
    case (Inr st)
    obtain fm' c' where st: "st = (fm', c')" by (cases st)
    with Inr have pass: "calcFirst_pass rs (fm, False) = Inr (fm', c')" by simp
    note p = calcFirst_pass_props [OF pass]
    from p less.prems assms(2) have v': "first_vals fm' \<subseteq> U" by blast
    show ?thesis
    proof (cases c')
      case True
      with p have lt: "first_size fm < first_size fm'" by blast
      have len: "length fm' = length fm" using p first_grows_length by blast
      have "first_size fm' \<le> length fm' * card U"
        by (rule first_size_bound [OF assms(1) v'])
      with lt have dec:
        "length fm' * card U - first_size fm' < length fm * card U - first_size fm"
        unfolding len by linarith
      from less.IH [OF dec v'] obtain res where
        res: "calcFirst_loop rs fm' = Some res" and
        post: "\<forall>f. res = Inr f \<longrightarrow>
          first_grows fm' f \<and> first_vals f \<subseteq> U \<and>
          (first_wf fm' \<longrightarrow> first_wf f \<and> calcFirst_pass rs (f, False) = Inr (f, False))" and
        def: "first_defined rs fm' \<longrightarrow> (\<exists>f. res = Inr f)"
        by blast
      have "calcFirst_loop rs fm = Some res"
        using pass True res by (subst calcFirst_loop.simps) simp
      moreover have "first_grows fm f \<and> first_vals f \<subseteq> U \<and>
          (first_wf fm \<longrightarrow> first_wf f \<and> calcFirst_pass rs (f, False) = Inr (f, False))"
        if "res = Inr f" for f
        using post that p by (blast intro: first_grows_trans)
      moreover have "\<exists>f. res = Inr f" if "first_defined rs fm"
        using def first_grows_defined [OF _ that, of fm'] p by blast
      ultimately show ?thesis by blast
    next
      case False
      have r: "calcFirst_loop rs fm = Some (Inr fm')"
        using pass False by (subst calcFirst_loop.simps) simp
      have "first_wf fm' \<and> calcFirst_pass rs (fm', False) = Inr (fm', False)" if "first_wf fm"
      proof -
        from pass False have "calcFirst_pass rs (fm, False) = Inr (fm', False)" by simp
        from calcFirst_pass_unchanged [OF this that] have "fm' = fm" by simp
        with pass False that show ?thesis by simp
      qed
      with r p v' show ?thesis by blast
    qed
  qed
qed


section \<open>Termination and soundness of calcFirst\<close>


text \<open>The constructor and the two methods of \<^verbatim>\<open>LR1_Rule\<close>.\<close>

definition new_LR1_Rule :: "string \<Rightarrow> LR1_Rule" where
  "new_LR1_Rule l = \<lparr>rule_index = -1, lhs = l, rhs = [], callBackId = ''''\<rparr>"

definition addTerminalItem :: "LR1_Rule \<Rightarrow> string \<Rightarrow> LR1_Rule" where
  "addTerminalItem r s = r\<lparr>rhs := rhs r @ [\<lparr>item_type = Terminal, item_value = s\<rparr>]\<rparr>"

definition addNonTerminalItem :: "LR1_Rule \<Rightarrow> string \<Rightarrow> LR1_Rule" where
  "addNonTerminalItem r s = r\<lparr>rhs := rhs r @ [\<lparr>item_type = NonTerminal, item_value = s\<rparr>]\<rparr>"

text \<open>The grammar \<^verbatim>\<open>s = a; a = a "x"; a = "y";\<close>.\<close>

definition grammar_sa :: "LR1_Rule list" where
  "grammar_sa =
     [addNonTerminalItem (new_LR1_Rule ''s'') ''a'',
      addTerminalItem (addNonTerminalItem (new_LR1_Rule ''a'') ''a'') '':x'',
      addTerminalItem (new_LR1_Rule ''a'') '':y'']"

lemma calcFirst_main:
  "\<exists>res. calcFirst rs fm = Some res \<and>
     (leftmost_defined rs \<and> plain_lhs rs \<longrightarrow> (\<exists>f. res = Inr f)) \<and>
     (\<forall>f. res = Inr f \<longrightarrow>
        first_grows (calcFirst_init rs fm) f \<and>
        first_vals f \<subseteq> first_vals fm \<union> terminals rs \<and>
        (first_wf fm \<longrightarrow> first_wf f \<and> calcFirst_pass rs (f, False) = Inr (f, False)))"
proof -
  let ?U = "first_vals fm \<union> terminals rs"
  let ?fm = "calcFirst_init rs fm"
  have finU: "finite ?U"
    by (simp add: finite_terminals first_vals_def)
  have sub: "first_vals ?fm \<subseteq> ?U"
    using calcFirst_init_vals [of rs fm] by blast
  from calcFirst_loop_total [OF finU _ sub, of rs] obtain res where
    res: "calcFirst_loop rs ?fm = Some res" and
    post: "\<forall>f. res = Inr f \<longrightarrow>
          first_grows ?fm f \<and> first_vals f \<subseteq> ?U \<and>
          (first_wf ?fm \<longrightarrow> first_wf f \<and> calcFirst_pass rs (f, False) = Inr (f, False))" and
    def: "first_defined rs ?fm \<longrightarrow> (\<exists>f. res = Inr f)"
    by auto
  have "calcFirst rs fm = Some res" using res by (simp add: calcFirst_def)
  moreover have "\<exists>f. res = Inr f" if "leftmost_defined rs \<and> plain_lhs rs"
    using def calcFirst_init_defined [of rs fm] that by blast
  moreover have "first_grows ?fm f \<and> first_vals f \<subseteq> ?U \<and>
        (first_wf fm \<longrightarrow> first_wf f \<and> calcFirst_pass rs (f, False) = Inr (f, False))" if "res = Inr f" for f
    using post that calcFirst_init_wf [of fm rs] by blast
  ultimately show ?thesis by blast
qed

declare calcFirst_loop.simps [code]

lemma calcFirst_grammar_sa:
  "calcFirst grammar_sa [] = Some (Inr [(''s'', ['':y'']), (''a'', ['':y''])])"
  by code_simp

text \<open>
  The grammar \<^verbatim>\<open>constructor = "x";\<close>: \<^verbatim>\<open>'constructor' in this.first\<close> holds for the
  empty dictionary, no set is made, and \<^verbatim>\<open>this.first['constructor'].has\<close> is not a function.
\<close>

lemma calcFirst_inherited_lhs:
  "calcFirst [addTerminalItem (new_LR1_Rule ''constructor'') '':x''] [] = Some (Inl TypeError)"
  by code_simp



text \<open>
  Claim C3 (FIRST soundness). When \<open>calcFirst\<close> returns the dictionary \<open>f\<close>, then for
  every rule \<open>A \<rightarrow> X \<beta>\<close> of the grammar \<open>f\<close> has a set for \<open>A\<close>; it contains \<open>X\<close> when
  \<open>X\<close> is a terminal, and it includes the set of \<open>X\<close> when \<open>X\<close> is a non-terminal.
  The sets of the initial dictionary are duplicate-free, as every \<^verbatim>\<open>Set\<close> is.
\<close>

theorem calcFirst_sound:
  assumes "calcFirst rs fm = Some (Inr f)" "first_wf fm"
  shows "\<forall>r \<in> set rs. \<forall>x \<beta>. rhs r = x # \<beta> \<longrightarrow>
           (\<exists>fa. map_of f (lhs r) = Some fa \<and>
              (if item_type x = Terminal then item_value x \<in> set fa
               else \<exists>fx. map_of f (item_value x) = Some fx \<and> set fx \<subseteq> set fa))"
proof -
  from calcFirst_main [of rs fm] assms
  have fp: "calcFirst_pass rs (f, False) = Inr (f, False)" and wf: "first_wf f"
    by auto
  from calcFirst_pass_unchanged [OF fp wf] have s: "\<forall>r \<in> set rs. sound_rule f r"
    by simp
  show ?thesis
  proof (intro ballI allI impI)
    fix r x \<beta>
    assume r: "r \<in> set rs" and rhs: "rhs r = x # \<beta>"
    from s r have "sound_rule f r" by blast
    with rhs show "\<exists>fa. map_of f (lhs r) = Some fa \<and>
              (if item_type x = Terminal then item_value x \<in> set fa
               else \<exists>fx. map_of f (item_value x) = Some fx \<and> set fx \<subseteq> set fa)"
      by (auto simp: sound_rule_def split: option.splits if_splits)
  qed
qed

theorem calcFirst_sound_witness:
  "first_wf [] \<and>
   calcFirst grammar_sa [] = Some (Inr [(''s'', ['':y'']), (''a'', ['':y''])]) \<and>
   addNonTerminalItem (new_LR1_Rule ''s'') ''a'' \<in> set grammar_sa \<and>
   rhs (addNonTerminalItem (new_LR1_Rule ''s'') ''a'') =
     [\<lparr>item_type = NonTerminal, item_value = ''a''\<rparr>] \<and>
   (\<exists>fa. map_of [(''s'', ['':y'']), (''a'', ['':y''])] ''s'' = Some fa \<and>
      (\<exists>fx. map_of [(''s'', ['':y'']), (''a'', ['':y''])] ''a'' = Some fx \<and>
         set fx \<subseteq> set fa))"
proof -
  have w: "first_wf []" by (simp add: first_wf_def)
  have m: "addNonTerminalItem (new_LR1_Rule ''s'') ''a'' \<in> set grammar_sa"
    by (simp add: grammar_sa_def)
  have r: "rhs (addNonTerminalItem (new_LR1_Rule ''s'') ''a'') =
     [\<lparr>item_type = NonTerminal, item_value = ''a''\<rparr>]"
    by (simp add: addNonTerminalItem_def new_LR1_Rule_def)
  from calcFirst_sound [OF calcFirst_grammar_sa w] m r
  have "\<exists>fa. map_of [(''s'', ['':y'']), (''a'', ['':y''])]
           (lhs (addNonTerminalItem (new_LR1_Rule ''s'') ''a'')) = Some fa \<and>
      (\<exists>fx. map_of [(''s'', ['':y'']), (''a'', ['':y''])] ''a'' = Some fx \<and>
         set fx \<subseteq> set fa)"
    by fastforce
  then have "\<exists>fa. map_of [(''s'', ['':y'']), (''a'', ['':y''])] ''s'' = Some fa \<and>
      (\<exists>fx. map_of [(''s'', ['':y'']), (''a'', ['':y''])] ''a'' = Some fx \<and>
         set fx \<subseteq> set fa)"
    by (simp add: addNonTerminalItem_def new_LR1_Rule_def)
  with calcFirst_grammar_sa w m r show ?thesis by blast
qed


section \<open>Edges, the table and the LR1 object\<close>

text \<open>
  \<^verbatim>\<open>class LR1_Edge { src; dest; label = new LR1_RuleItem() }\<close>. Source and destination are
  references to states: positions in the store of states.
\<close>

record LR1_Edge =
  src :: nat
  dest :: nat
  label :: LR1_RuleItem

text \<open>
  lr1table.ts: \<^verbatim>\<open>LR1_TableEntry { shift = true; value = -1 }\<close> (the field \<open>value\<close> is
  \<open>entry_value\<close> here), \<^verbatim>\<open>LR1_TableRow { actionEntries = {}; gotoEntries = {} }\<close> with the
  two dictionaries as association lists in insertion order, and
  \<^verbatim>\<open>LR1_Table { rows = [] }\<close>.
\<close>

record LR1_TableEntry =
  shift :: bool
  entry_value :: int

record LR1_TableRow =
  actionEntries :: "(string \<times> LR1_TableEntry) list"
  gotoEntries :: "(string \<times> LR1_TableEntry) list"

record LR1_Table =
  rows :: "LR1_TableRow list"

text \<open>
  The fields \<open>rules\<close>, \<open>first\<close>, \<open>states\<close> and \<open>table\<close> of the class \<^verbatim>\<open>LR1\<close>, together
  with the store of all \<^verbatim>\<open>LR1_State\<close> and \<^verbatim>\<open>LR1_Edge\<close> objects created so far. A
  reference to a state or an edge is its position in the store; \<open>states\<close> holds
  references, and \<open>table = None\<close> is \<^verbatim>\<open>null\<close>. The callbacks are a parameter of \<open>parse\<close>.
\<close>

record LR1 =
  rules :: "LR1_Rule list"
  first :: first_map
  states :: "nat list"
  table :: "LR1_Table option"
  state_store :: "LR1_State list"
  edge_store :: "LR1_Edge list"

definition new_LR1 :: LR1 where
  "new_LR1 = \<lparr>rules = [], first = [], states = [], table = None,
              state_store = [], edge_store = []\<rparr>"

section \<open>LR1_State.calcItemSet\<close>

text \<open>
  The lookahead set of the item \<open>[y \<rightarrow> . c]\<close> that the closure adds for \<open>[x \<rightarrow> a . y b, L]\<close>:
  the terminal after \<open>y\<close>, or \<^verbatim>\<open>new Set(first[v])\<close> for the non-terminal \<open>v\<close> after \<open>y\<close>, or a
  copy of \<open>L\<close> when \<open>y\<close> is the last symbol. \<^verbatim>\<open>first[v]\<close> is the own property when there is
  one; else, for the name of an inherited member, that member, which is not iterable, so
  that \<^verbatim>\<open>new Set\<close> throws a \<open>TypeError\<close>; else \<^verbatim>\<open>undefined\<close>, and \<^verbatim>\<open>new Set(undefined)\<close> is the
  empty set.
\<close>

definition closure_lookAhead :: "first_map \<Rightarrow> LR1_StateItem \<Rightarrow> failure + string list" where
  "closure_lookAhead fm item =
     (if pos item + 1 < length (rhs (rule item))
      then (let b = rhs (rule item) ! (pos item + 1) in
            if item_type b = Terminal then Inr (set_add (item_value b) [])
            else (case map_of fm (item_value b) of
                    Some s \<Rightarrow> Inr (new_Set s)
                  | None \<Rightarrow>
                      if item_value b \<in> set proto_names then Inl TypeError
                      else Inr (new_Set [])))
      else Inr (new_Set (lookAheadSet item)))"

text \<open>
  The items pushed to \<open>newItems\<close> for one item of the item set: one for every rule of the
  non-terminal right of the dot. The lookahead set is computed for each of these rules
  anew and is the same for all of them; without such a rule it is not computed.
\<close>

definition closure_newItems :: "LR1_Rule list \<Rightarrow> first_map \<Rightarrow> LR1_StateItem \<Rightarrow> failure + LR1_StateItem list" where
  "closure_newItems rs fm item =
     (if pos item < length (rhs (rule item)) \<and>
         item_type (rhs (rule item) ! pos item) = NonTerminal
      then (if filter (\<lambda>r. lhs r = item_value (rhs (rule item) ! pos item)) rs = [] then Inr []
            else (case closure_lookAhead fm item of
                    Inl e \<Rightarrow> Inl e
                  | Inr la \<Rightarrow>
                      Inr (map (\<lambda>r. \<lparr>pos = 0, lookAheadSet = la, rule = r\<rparr>)
                             (filter (\<lambda>r. lhs r = item_value (rhs (rule item) ! pos item)) rs))))
      else Inr [])"

text \<open>The loop \<^verbatim>\<open>for (const item of this.itemSet)\<close> that fills \<open>newItems\<close>.\<close>

fun closure_collect :: "LR1_Rule list \<Rightarrow> first_map \<Rightarrow> LR1_StateItem list \<Rightarrow> failure + LR1_StateItem list" where
  "closure_collect rs fm [] = Inr []"
| "closure_collect rs fm (item # items) =
     (case closure_newItems rs fm item of
        Inl e \<Rightarrow> Inl e
      | Inr new \<Rightarrow>
          (case closure_collect rs fm items of
             Inl e \<Rightarrow> Inl e
           | Inr rest \<Rightarrow> Inr (new @ rest)))"

text \<open>
  One round of the \<^verbatim>\<open>do ... while (change)\<close> loop: collect \<open>newItems\<close> over the whole
  item set, then \<open>addItem\<close> each of them.
\<close>

definition closure_pass :: "LR1_Rule list \<Rightarrow> first_map \<Rightarrow> LR1_StateItem list \<Rightarrow> failure + LR1_StateItem list" where
  "closure_pass rs fm items =
     (case closure_collect rs fm items of
        Inl e \<Rightarrow> Inl e
      | Inr new \<Rightarrow> Inr (fold (\<lambda>item acc. snd (addItem_items acc item)) new items))"

partial_function (option) closure_loop :: "LR1_Rule list \<Rightarrow> first_map \<Rightarrow> LR1_StateItem list \<Rightarrow> (failure + LR1_StateItem list) option" where
  "closure_loop rs fm items =
     (case closure_pass rs fm items of
        Inl e \<Rightarrow> Some (Inl e)
      | Inr items' \<Rightarrow>
          if length items' > length items then closure_loop rs fm items'
          else Some (Inr items'))"

declare closure_loop.simps [code]

text \<open>The sets \<open>t\<close> and \<open>nt\<close> of the symbols right of the dot.\<close>

fun successor_symbols :: "LR1_StateItem list \<Rightarrow> string list \<times> string list \<Rightarrow> string list \<times> string list" where
  "successor_symbols [] tnt = tnt"
| "successor_symbols (item # items) tnt =
     successor_symbols items
       (if pos item < length (rhs (rule item))
        then (if item_type (rhs (rule item) ! pos item) = Terminal
              then (set_add (item_value (rhs (rule item) ! pos item)) (fst tnt), snd tnt)
              else (fst tnt, set_add (item_value (rhs (rule item) ! pos item)) (snd tnt)))
        else tnt)"

text \<open>\<^verbatim>\<open>LR1_StateItem.clone\<close> followed by \<^verbatim>\<open>i.pos++\<close>.\<close>

definition clone :: "LR1_StateItem \<Rightarrow> LR1_StateItem" where
  "clone item = \<lparr>pos = pos item, lookAheadSet = new_Set (lookAheadSet item), rule = rule item\<rparr>"

definition advance :: "LR1_StateItem \<Rightarrow> LR1_StateItem" where
  "advance item = (clone item)\<lparr>pos := pos item + 1\<rparr>"

text \<open>
  The inner loop that fills the successor state \<open>si\<close> for the symbol of type \<open>ty\<close> and
  value \<open>v\<close>: every item with that symbol right of the dot is cloned, advanced and added;
  \<^verbatim>\<open>process.exit(-1)\<close> when \<open>addItem\<close> returns false.
\<close>

fun successor_seeds :: "LR1_RuleItemType \<Rightarrow> string \<Rightarrow> LR1_StateItem list \<Rightarrow> LR1_State \<Rightarrow> failure + LR1_State" where
  "successor_seeds ty v [] si = Inr si"
| "successor_seeds ty v (item # items) si =
     (if pos item < length (rhs (rule item)) \<and>
         item_type (rhs (rule item) ! pos item) = ty \<and>
         item_value (rhs (rule item) ! pos item) = v
      then (if fst (addItem si (advance item))
            then successor_seeds ty v items (snd (addItem si (advance item)))
            else Inl ProcessExit)
      else successor_seeds ty v items si)"

text \<open>
  The loop \<^verbatim>\<open>for (const ti of t)\<close> (and the one over \<open>nt\<close>) for the state with reference
  \<open>q\<close>: a new state and a new edge are allocated at the ends of the stores, the edge is
  pushed to the \<open>outEdges\<close> of \<open>q\<close> and to the \<open>inEdges\<close> of the new state, and the new state
  is filled; \<open>s\<close> collects the references of the new states.
\<close>

fun make_successors :: "LR1_RuleItemType \<Rightarrow> string list \<Rightarrow> nat \<Rightarrow> LR1 \<Rightarrow> nat list \<Rightarrow> failure + LR1 \<times> nat list" where
  "make_successors ty [] q lr s = Inr (lr, s)"
| "make_successors ty (v # vs) q lr s =
     (case successor_seeds ty v (itemSet (state_store lr ! q))
             (new_LR1_State\<lparr>inEdges := [length (edge_store lr)]\<rparr>) of
        Inl e \<Rightarrow> Inl e
      | Inr si \<Rightarrow>
          make_successors ty vs q
            (lr\<lparr>state_store :=
                   (state_store lr)[q := (state_store lr ! q)
                      \<lparr>outEdges := outEdges (state_store lr ! q) @ [length (edge_store lr)]\<rparr>] @ [si],
                 edge_store := edge_store lr @
                   [\<lparr>src = q, dest = length (state_store lr),
                     label = \<lparr>item_type = ty, item_value = v\<rparr>\<rparr>]\<rparr>)
            (s @ [length (state_store lr)]))"

text \<open>
  \<^verbatim>\<open>calcItemSet\<close> on the state with reference \<open>q\<close>: the closure replaces its item set,
  then the successors for the terminals and for the non-terminals are made. A failure
  comes without the object.
\<close>

definition calcItemSet :: "LR1 \<Rightarrow> nat \<Rightarrow> (failure + LR1 \<times> nat list) option" where
  "calcItemSet lr q =
     (case closure_loop (rules lr) (first lr) (itemSet (state_store lr ! q)) of
        None \<Rightarrow> None
      | Some (Inl e) \<Rightarrow> Some (Inl e)
      | Some (Inr items) \<Rightarrow>
          Some (case make_successors Terminal (fst (successor_symbols items ([], []))) q
                       (lr\<lparr>state_store := (state_store lr)[q := (state_store lr ! q)\<lparr>itemSet := items\<rparr>]\<rparr>)
                       [] of
                  Inl e \<Rightarrow> Inl e
                | Inr (lr', s) \<Rightarrow>
                    make_successors NonTerminal (snd (successor_symbols items ([], []))) q lr' s))"


section \<open>Properties of calcItemSet\<close>

text \<open>\<open>dot_before ty v item\<close>: the symbol right of the dot of \<open>item\<close> has type \<open>ty\<close> and value \<open>v\<close>.\<close>


definition dot_before :: "LR1_RuleItemType \<Rightarrow> string \<Rightarrow> LR1_StateItem \<Rightarrow> bool" where
  "dot_before ty v item =
     (pos item < length (rhs (rule item)) \<and>
      item_type (rhs (rule item) ! pos item) = ty \<and>
      item_value (rhs (rule item) ! pos item) = v)"

lemma core_advance: "core (advance item) = (rule item, pos item + 1)"
  by (simp add: core_def advance_def clone_def)

lemma inj_core_advance: "core (advance a) = core (advance b) \<Longrightarrow> core a = core b"
  by (simp add: core_def advance_def clone_def)

lemma core_unique_advance:
  "core_unique items \<Longrightarrow> distinct (map (\<lambda>a. core (advance a)) (filter P items))"
proof -
  assume "core_unique items"
  then have "distinct (map core (filter P items))"
    unfolding core_unique_def by (rule distinct_map_filter)
  then have d: "distinct (filter P items)" and i: "inj_on core (set (filter P items))"
    by (simp_all add: distinct_map)
  have "inj_on (\<lambda>a. core (advance a)) (set (filter P items))"
  proof (rule inj_onI)
    fix a b assume a: "a \<in> set (filter P items)" and b: "b \<in> set (filter P items)"
      and e: "core (advance a) = core (advance b)"
    from e have "core a = core b" by (rule inj_core_advance)
    with i a b show "a = b" by (auto dest: inj_onD)
  qed
  with d show ?thesis by (simp add: distinct_map)
qed

lemma successor_seeds_ok:
  "distinct (map core (itemSet si) @ map (\<lambda>a. core (advance a)) (filter (dot_before ty v) items)) \<Longrightarrow>
   successor_seeds ty v items si =
     Inr (si\<lparr>itemSet := itemSet si @ map advance (filter (dot_before ty v) items)\<rparr>)"
proof (induction items arbitrary: si)
  case Nil
  then show ?case by simp
next
  case (Cons item items)
  show ?case
  proof (cases "dot_before ty v item")
    case True
    from Cons.prems True have new: "core (advance item) \<notin> set (map core (itemSet si))"
      by auto
    have r: "fst (addItem si (advance item))"
      using new by (simp add: addItem_def addItem_items_result)
    have s: "snd (addItem si (advance item)) = si\<lparr>itemSet := itemSet si @ [advance item]\<rparr>"
      using new by (simp add: addItem_def addItem_items_cores_new)
    have "distinct (map core (itemSet (si\<lparr>itemSet := itemSet si @ [advance item]\<rparr>)) @
        map (\<lambda>a. core (advance a)) (filter (dot_before ty v) items))"
      using Cons.prems True by auto
    from Cons.IH [OF this] True have
      "successor_seeds ty v items (si\<lparr>itemSet := itemSet si @ [advance item]\<rparr>) =
         Inr (si\<lparr>itemSet := itemSet si @ map advance (filter (dot_before ty v) (item # items))\<rparr>)"
      by simp
    moreover have "successor_seeds ty v (item # items) si =
        successor_seeds ty v items (snd (addItem si (advance item)))"
      using True r unfolding dot_before_def by simp
    ultimately show ?thesis using s by simp
  next
    case False
    with Cons.prems have "distinct (map core (itemSet si) @
        map (\<lambda>a. core (advance a)) (filter (dot_before ty v) items))" by simp
    from Cons.IH [OF this] False have
      "successor_seeds ty v items si =
         Inr (si\<lparr>itemSet := itemSet si @ map advance (filter (dot_before ty v) (item # items))\<rparr>)"
      by simp
    moreover have "successor_seeds ty v (item # items) si = successor_seeds ty v items si"
      using False unfolding dot_before_def by (simp del: de_Morgan_conj)
    ultimately show ?thesis by simp
  qed
qed

lemma successor_seeds_fresh:
  "core_unique items \<Longrightarrow>
   successor_seeds ty v items (new_LR1_State\<lparr>inEdges := es\<rparr>) =
     Inr (new_LR1_State\<lparr>inEdges := es, itemSet := map advance (filter (dot_before ty v) items)\<rparr>)"
  using successor_seeds_ok [of "new_LR1_State\<lparr>inEdges := es\<rparr>" ty v items]
    core_unique_advance [of items "dot_before ty v"]
  by (simp add: new_LR1_State_def)



lemma fold_addItem_core_unique:
  "core_unique acc \<Longrightarrow> core_unique (fold (\<lambda>item acc. snd (addItem_items acc item)) new acc)"
  by (induction new arbitrary: acc) (auto simp: addItem_items_core_unique)

lemma closure_pass_core_unique:
  "closure_pass rs fm items = Inr items' \<Longrightarrow> core_unique items \<Longrightarrow> core_unique items'"
  by (auto simp: closure_pass_def fold_addItem_core_unique split: sum.splits)

text \<open>
  A property \<open>P\<close> of item sets that every round of the closure keeps holds for the item
  set that the closure returns; and the closure fails only with a \<open>TypeError\<close>.
\<close>

lemma closure_loop_induct:
  assumes run: "closure_loop rs fm items = Some res"
    and step: "\<And>a b. P a \<Longrightarrow> closure_pass rs fm a = Inr b \<Longrightarrow> P b"
  shows "P items \<longrightarrow> (\<forall>items'. res = Inr items' \<longrightarrow> P items')"
proof -
  have "rs' = rs \<and> fm' = fm \<and> P its \<longrightarrow> (\<forall>items'. res' = Inr items' \<longrightarrow> P items')"
    if "closure_loop rs' fm' its = Some res'" for rs' fm' its res'
  proof (rule closure_loop.raw_induct [OF _ that])
    fix f rs' fm' its res'
    assume ih: "\<And>a b c y. f a b c = Some y \<Longrightarrow>
        a = rs \<and> b = fm \<and> P c \<longrightarrow> (\<forall>items'. y = Inr items' \<longrightarrow> P items')"
      and eq: "(case closure_pass rs' fm' its of
          Inl e \<Rightarrow> Some (Inl e)
        | Inr items' \<Rightarrow>
            if length items' > length its then f rs' fm' items'
            else Some (Inr items')) = Some res'"
    show "rs' = rs \<and> fm' = fm \<and> P its \<longrightarrow> (\<forall>items'. res' = Inr items' \<longrightarrow> P items')"
    proof (intro impI allI)
      fix items'
      assume h: "rs' = rs \<and> fm' = fm \<and> P its" and r: "res' = Inr items'"
      from eq r obtain b where pass: "closure_pass rs' fm' its = Inr b"
        by (cases "closure_pass rs' fm' its") auto
      with h step have pb: "P b" by blast
      show "P items'"
      proof (cases "length b > length its")
        case True
        with eq pass have "f rs' fm' b = Some res'" by simp
        from ih [OF this] h pb r show ?thesis by simp
      next
        case False
        with eq pass r pb show ?thesis by simp
      qed
    qed
  qed
  from this [OF run] show ?thesis by simp
qed

lemma closure_lookAhead_failure: "closure_lookAhead fm item = Inl e \<Longrightarrow> e = TypeError"
  by (auto simp: closure_lookAhead_def Let_def split: if_splits option.splits)

lemma closure_newItems_failure: "closure_newItems rs fm item = Inl e \<Longrightarrow> e = TypeError"
  by (auto simp: closure_newItems_def closure_lookAhead_failure split: if_splits sum.splits)

lemma closure_collect_failure: "closure_collect rs fm items = Inl e \<Longrightarrow> e = TypeError"
  by (induction items) (auto simp: closure_newItems_failure split: sum.splits)

lemma closure_pass_failure: "closure_pass rs fm items = Inl e \<Longrightarrow> e = TypeError"
  by (auto simp: closure_pass_def closure_collect_failure split: sum.splits)

lemma closure_loop_failure:
  assumes "closure_loop rs fm items = Some res"
  shows "\<forall>e. res = Inl e \<longrightarrow> e = TypeError"
proof (rule closure_loop.raw_induct [OF _ assms])
  fix f rs fm items res
  assume ih: "\<And>a b c y. f a b c = Some y \<Longrightarrow> \<forall>e. y = Inl e \<longrightarrow> e = TypeError"
    and eq: "(case closure_pass rs fm items of
          Inl e \<Rightarrow> Some (Inl e)
        | Inr items' \<Rightarrow>
            if length items' > length items then f rs fm items'
            else Some (Inr items')) = Some res"
  show "\<forall>e. res = Inl e \<longrightarrow> e = TypeError"
  proof (cases "closure_pass rs fm items")
    case (Inl e)
    with eq closure_pass_failure [OF Inl] show ?thesis by auto
  next
    case (Inr b)
    show ?thesis
    proof (cases "length b > length items")
      case True
      with eq Inr have "f rs fm b = Some res" by simp
      from ih [OF this] show ?thesis .
    next
      case False
      with eq Inr show ?thesis by auto
    qed
  qed
qed

lemma closure_loop_core_unique:
  assumes "closure_loop rs fm items = Some (Inr items')"
  shows "core_unique items \<longrightarrow> core_unique items'"
  using closure_loop_induct [OF assms, of core_unique] closure_pass_core_unique
  by blast

lemma make_successors_ok:
  "q < length (state_store lr) \<Longrightarrow> core_unique (itemSet (state_store lr ! q)) \<Longrightarrow>
     \<exists>lr' s'. make_successors ty vs q lr s = Inr (lr', s') \<and>
       q < length (state_store lr') \<and>
       itemSet (state_store lr' ! q) = itemSet (state_store lr ! q)"
proof (induction vs arbitrary: lr s)
  case Nil
  then show ?case by simp
next
  case (Cons v vs)
  let ?e = "length (edge_store lr)"
  let ?si = "new_LR1_State\<lparr>inEdges := [?e],
      itemSet := map advance (filter (dot_before ty v) (itemSet (state_store lr ! q)))\<rparr>"
  let ?lr = "lr\<lparr>state_store :=
                   (state_store lr)[q := (state_store lr ! q)
                      \<lparr>outEdges := outEdges (state_store lr ! q) @ [?e]\<rparr>] @ [?si],
                 edge_store := edge_store lr @
                   [\<lparr>src = q, dest = length (state_store lr),
                     label = \<lparr>item_type = ty, item_value = v\<rparr>\<rparr>]\<rparr>"
  have seeds: "successor_seeds ty v (itemSet (state_store lr ! q))
      (new_LR1_State\<lparr>inEdges := [?e]\<rparr>) = Inr ?si"
    by (rule successor_seeds_fresh [OF Cons.prems(2)])
  have q': "q < length (state_store ?lr)" using Cons.prems(1) by simp
  have it: "itemSet (state_store ?lr ! q) = itemSet (state_store lr ! q)"
    using Cons.prems(1) by (simp add: nth_append)
  from Cons.prems(2) it have cu: "core_unique (itemSet (state_store ?lr ! q))" by simp
  from Cons.IH [OF q' cu, of "s @ [length (state_store lr)]"] obtain lr' s' where
    "make_successors ty vs q ?lr (s @ [length (state_store lr)]) = Inr (lr', s')"
    "q < length (state_store lr')"
    "itemSet (state_store lr' ! q) = itemSet (state_store ?lr ! q)"
    by blast
  with seeds it show ?case by simp
qed

lemma calcItemSet_no_exit:
  assumes "q < length (state_store lr)" "core_unique (itemSet (state_store lr ! q))"
    "calcItemSet lr q = Some res"
  shows "(\<exists>lr' s. res = Inr (lr', s)) \<or>
         (res = Inl TypeError \<and>
          closure_loop (rules lr) (first lr) (itemSet (state_store lr ! q)) = Some (Inl TypeError))"
proof (cases "\<exists>e. closure_loop (rules lr) (first lr) (itemSet (state_store lr ! q)) = Some (Inl e)")
  case True
  then obtain e where
    cl: "closure_loop (rules lr) (first lr) (itemSet (state_store lr ! q)) = Some (Inl e)" ..
  from closure_loop_failure [OF cl] have "e = TypeError" by simp
  with cl assms(3) show ?thesis by (simp add: calcItemSet_def)
next
  case False
  with assms(3) obtain items where
    cl: "closure_loop (rules lr) (first lr) (itemSet (state_store lr ! q)) = Some (Inr items)"
    by (auto simp: calcItemSet_def split: option.splits sum.splits)
  from closure_loop_core_unique [OF cl] assms(2) have cu: "core_unique items" by simp
  let ?lr = "lr\<lparr>state_store := (state_store lr)[q := (state_store lr ! q)\<lparr>itemSet := items\<rparr>]\<rparr>"
  have q1: "q < length (state_store ?lr)" using assms(1) by simp
  have cu1: "core_unique (itemSet (state_store ?lr ! q))" using assms(1) cu by simp
  from make_successors_ok [OF q1 cu1, of Terminal "fst (successor_symbols items ([], []))" "[]"]
  obtain lr1 s1 where
    m1: "make_successors Terminal (fst (successor_symbols items ([], []))) q ?lr [] = Inr (lr1, s1)"
    and q2: "q < length (state_store lr1)"
    and it2: "itemSet (state_store lr1 ! q) = itemSet (state_store ?lr ! q)"
    by blast
  from cu1 it2 have cu2: "core_unique (itemSet (state_store lr1 ! q))" by simp
  from make_successors_ok [OF q2 cu2, of NonTerminal "snd (successor_symbols items ([], []))" s1]
  obtain lr2 s2 where
    m2: "make_successors NonTerminal (snd (successor_symbols items ([], []))) q lr1 s1 = Inr (lr2, s2)"
    by blast
  from assms(3) cl m1 m2 show ?thesis by (auto simp: calcItemSet_def)
qed


section \<open>Equality of states and LR1.addState\<close>

text \<open>\<^verbatim>\<open>LR1_StateItem.compareLookAhead\<close> and \<^verbatim>\<open>LR1_StateItem.equal\<close>.\<close>

definition compareLookAhead :: "LR1_StateItem \<Rightarrow> string list \<Rightarrow> bool" where
  "compareLookAhead this l =
     (if length (lookAheadSet this) \<noteq> length l then False
      else list_all (\<lambda>li. li \<in> set (lookAheadSet this)) l)"

definition item_equal :: "LR1_StateItem \<Rightarrow> LR1_StateItem \<Rightarrow> bool" where
  "item_equal this i =
     (if pos this \<noteq> pos i then False
      else if rule this \<noteq> rule i then False
      else if compareLookAhead this (lookAheadSet i) = False then False
      else True)"

text \<open>
  \<^verbatim>\<open>LR1_State.equal\<close>: the same number of items, and every item of \<open>this\<close> is equal to
  some item of \<open>s\<close>.
\<close>

definition state_equal :: "LR1_State \<Rightarrow> LR1_State \<Rightarrow> bool" where
  "state_equal this s =
     (if length (itemSet this) \<noteq> length (itemSet s) then False
      else list_all (\<lambda>i. list_ex (\<lambda>j. item_equal i j) (itemSet s)) (itemSet this))"

text \<open>
  The loop over the in-edges \<open>u\<close> of \<open>sNew\<close> once an equal state \<open>s\<close> is found: the
  destination of \<open>u\<close> becomes \<open>s\<close>, and \<open>u\<close> is pushed to the in-edges of \<open>s\<close> unless an edge
  with the same source, destination and label is there.
\<close>

definition edge_same :: "LR1_Edge \<Rightarrow> LR1_Edge \<Rightarrow> bool" where
  "edge_same u v =
     (src u = src v \<and> dest u = dest v \<and>
      item_type (label u) = item_type (label v) \<and>
      item_value (label u) = item_value (label v))"

fun redirect_inEdges :: "nat list \<Rightarrow> nat \<Rightarrow> LR1 \<Rightarrow> LR1" where
  "redirect_inEdges [] s lr = lr"
| "redirect_inEdges (u # us) s lr =
     redirect_inEdges us s
       (if list_ex
             (\<lambda>v. edge_same ((edge_store lr)[u := (edge_store lr ! u)\<lparr>dest := s\<rparr>] ! u)
                              ((edge_store lr)[u := (edge_store lr ! u)\<lparr>dest := s\<rparr>] ! v))
             (inEdges (state_store lr ! s))
        then lr\<lparr>edge_store := (edge_store lr)[u := (edge_store lr ! u)\<lparr>dest := s\<rparr>]\<rparr>
        else lr\<lparr>edge_store := (edge_store lr)[u := (edge_store lr ! u)\<lparr>dest := s\<rparr>],
                state_store := (state_store lr)[s := (state_store lr ! s)
                   \<lparr>inEdges := inEdges (state_store lr ! s) @ [u]\<rparr>]\<rparr>)"

text \<open>
  \<^verbatim>\<open>addState\<close>: the loop over \<open>this.states\<close> stops at the first state equal to \<open>sNew\<close>;
  without one, \<open>sNew\<close> gets the next index and is pushed.
\<close>

fun addState_find :: "nat list \<Rightarrow> nat \<Rightarrow> LR1 \<Rightarrow> nat option" where
  "addState_find [] sNew lr = None"
| "addState_find (s # ss) sNew lr =
     (if state_equal (state_store lr ! s) (state_store lr ! sNew) then Some s
      else addState_find ss sNew lr)"

definition addState :: "LR1 \<Rightarrow> nat \<Rightarrow> bool \<times> LR1" where
  "addState lr sNew =
     (case addState_find (states lr) sNew lr of
        Some s \<Rightarrow> (False, redirect_inEdges (inEdges (state_store lr ! sNew)) s lr)
      | None \<Rightarrow>
          (True,
           lr\<lparr>state_store := (state_store lr)[sNew := (state_store lr ! sNew)
                   \<lparr>state_index := int (length (states lr))\<rparr>],
              states := states lr @ [sNew]\<rparr>))"

section \<open>LR1.calcTable\<close>

text \<open>
  The check that every non-terminal of a right-hand side is a left-hand side; \<open>nt\<close> is
  the set of left-hand sides.
\<close>

fun check_items :: "string list \<Rightarrow> LR1_Rule \<Rightarrow> LR1_RuleItem list \<Rightarrow> failure option" where
  "check_items nt r [] = None"
| "check_items nt r (item # items) =
     (if item_type item = NonTerminal \<and> item_value item \<notin> set nt
      then Some (UndefinedNonTerminal r (item_value item))
      else check_items nt r items)"

fun check_rules :: "string list \<Rightarrow> LR1_Rule list \<Rightarrow> failure option" where
  "check_rules nt [] = None"
| "check_rules nt (r # rs) =
     (case check_items nt r (rhs r) of
        Some e \<Rightarrow> Some e
      | None \<Rightarrow> check_rules nt rs)"

text \<open>\<^verbatim>\<open>for (let i = 0; i < this.rules.length; i++) this.rules[i].index = i;\<close>\<close>

definition assign_indices :: "LR1_Rule list \<Rightarrow> LR1_Rule list" where
  "assign_indices rs = map (\<lambda>ir. (snd ir)\<lparr>rule_index := int (fst ir)\<rparr>) (enumerate 0 rs)"

text \<open>
  The worklist loop \<^verbatim>\<open>while (Q.length > 0)\<close>: \<open>Q.pop()\<close> takes the last element, and the
  successors are appended when the state was added. \<open>None\<close> stands for a loop that never
  ends.
\<close>

partial_function (option) calcTable_loop :: "LR1 \<Rightarrow> nat list \<Rightarrow> (failure + LR1) option" where
  "calcTable_loop lr Q =
     (if Q = [] then Some (Inr lr)
      else (case calcItemSet lr (last Q) of
              None \<Rightarrow> None
            | Some (Inl e) \<Rightarrow> Some (Inl e)
            | Some (Inr lrR) \<Rightarrow>
                if fst (addState (fst lrR) (last Q))
                then calcTable_loop (snd (addState (fst lrR) (last Q))) (butlast Q @ snd lrR)
                else calcTable_loop (snd (addState (fst lrR) (last Q))) (butlast Q)))"

declare calcTable_loop.simps [code]

text \<open>
  The loop over \<open>state.outEdges\<close>: a shift entry for a terminal label, a goto entry for a
  non-terminal label, \<^verbatim>\<open>process.exit(-1)\<close> when \<^verbatim>\<open>label in row.actionEntries\<close> (or
  \<^verbatim>\<open>label in row.gotoEntries\<close>) holds: for a key that is there already, and for the name
  of an inherited member.
\<close>

fun add_outEdges :: "LR1 \<Rightarrow> nat list \<Rightarrow> LR1_TableRow \<Rightarrow> failure + LR1_TableRow" where
  "add_outEdges lr [] row = Inr row"
| "add_outEdges lr (e # es) row =
     (if item_type (label (edge_store lr ! e)) = Terminal
      then (if js_in (item_value (label (edge_store lr ! e))) (map_of (actionEntries row))
            then Inl ProcessExit
            else add_outEdges lr es
                   (row\<lparr>actionEntries :=
                      AList.update (item_value (label (edge_store lr ! e)))
                        \<lparr>shift = True,
                         entry_value = state_index (state_store lr ! dest (edge_store lr ! e))\<rparr>
                        (actionEntries row)\<rparr>))
      else (if js_in (item_value (label (edge_store lr ! e))) (map_of (gotoEntries row))
            then Inl ProcessExit
            else add_outEdges lr es
                   (row\<lparr>gotoEntries :=
                      AList.update (item_value (label (edge_store lr ! e)))
                        \<lparr>shift = True,
                         entry_value = state_index (state_store lr ! dest (edge_store lr ! e))\<rparr>
                        (gotoEntries row)\<rparr>)))"

text \<open>
  \<^verbatim>\<open>LR1_State.calcReduceEntries\<close>: for every item with the dot at the end and every
  terminal of its lookahead set an entry with the index of the rule; when
  \<^verbatim>\<open>terminal in entries\<close> holds, the reduce/reduce conflict is thrown, with the index
  \<^verbatim>\<open>entries[terminal].value\<close>: that of the entry that is there, or \<^verbatim>\<open>undefined\<close> for the name
  of an inherited member.
\<close>

fun reduce_lookAheads :: "int \<Rightarrow> string list \<Rightarrow> (string \<times> LR1_TableEntry) list \<Rightarrow> failure + (string \<times> LR1_TableEntry) list" where
  "reduce_lookAheads idx [] entries = Inr entries"
| "reduce_lookAheads idx (terminal # ts) entries =
     (case map_of entries terminal of
        Some e \<Rightarrow> Inl (ReduceReduceConflict (entry_value e) idx)
      | None \<Rightarrow>
          if terminal \<in> set proto_names then Inl (ReduceReduceUndefined idx)
          else reduce_lookAheads idx ts
                 (AList.update terminal \<lparr>shift = True, entry_value = idx\<rparr> entries))"

fun calcReduceEntries_items :: "LR1_StateItem list \<Rightarrow> (string \<times> LR1_TableEntry) list \<Rightarrow> failure + (string \<times> LR1_TableEntry) list" where
  "calcReduceEntries_items [] entries = Inr entries"
| "calcReduceEntries_items (item # items) entries =
     (if pos item = length (rhs (rule item))
      then (case reduce_lookAheads (rule_index (rule item)) (lookAheadSet item) entries of
              Inl e \<Rightarrow> Inl e
            | Inr entries' \<Rightarrow> calcReduceEntries_items items entries')
      else calcReduceEntries_items items entries)"

definition calcReduceEntries :: "LR1_State \<Rightarrow> failure + (string \<times> LR1_TableEntry) list" where
  "calcReduceEntries st = calcReduceEntries_items (itemSet st) []"

text \<open>
  The loop \<^verbatim>\<open>for (const terminal in reduceEntries)\<close> over the own properties: a reduce
  entry per terminal, \<^verbatim>\<open>process.exit(-1)\<close> when \<^verbatim>\<open>terminal in row.actionEntries\<close> holds. (Keys
  are visited in insertion order; a key that is a canonical array index would be visited
  first, which changes neither the final row nor whether the loop exits.)
\<close>

fun add_reduceEntries :: "(string \<times> LR1_TableEntry) list \<Rightarrow> LR1_TableRow \<Rightarrow> failure + LR1_TableRow" where
  "add_reduceEntries [] row = Inr row"
| "add_reduceEntries (te # tes) row =
     (if js_in (fst te) (map_of (actionEntries row)) then Inl ProcessExit
      else add_reduceEntries tes
             (row\<lparr>actionEntries :=
                AList.update (fst te) \<lparr>shift = False, entry_value = entry_value (snd te)\<rparr>
                  (actionEntries row)\<rparr>))"

text \<open>
  The body of \<^verbatim>\<open>for (const state of this.states)\<close> on the fresh row. A failure comes
  with the row as it is at that moment: the row is in \<open>this.table.rows\<close> already.
\<close>

definition calcTable_row :: "LR1 \<Rightarrow> LR1_State \<Rightarrow> failure \<times> LR1_TableRow + LR1_TableRow" where
  "calcTable_row lr st =
     (case add_outEdges lr (outEdges st) \<lparr>actionEntries = [], gotoEntries = []\<rparr> of
        Inl e \<Rightarrow> Inl (e, \<lparr>actionEntries = [], gotoEntries = []\<rparr>)
      | Inr row \<Rightarrow>
          (case calcReduceEntries st of
             Inl e \<Rightarrow> Inl (e, row)
           | Inr reduceEntries \<Rightarrow>
               (case add_reduceEntries reduceEntries row of
                  Inl e \<Rightarrow> Inl (e, row)
                | Inr row' \<Rightarrow> Inr row')))"

fun calcTable_rows :: "LR1 \<Rightarrow> nat list \<Rightarrow> LR1_TableRow list \<Rightarrow> failure \<times> LR1_TableRow list + LR1_TableRow list" where
  "calcTable_rows lr [] rws = Inr rws"
| "calcTable_rows lr (s # ss) rws =
     (case calcTable_row lr (state_store lr ! s) of
        Inl erow \<Rightarrow> Inl (fst erow, rws @ [snd erow])
      | Inr row \<Rightarrow> calcTable_rows lr ss (rws @ [row]))"

text \<open>
  \<^verbatim>\<open>calcTable\<close> on the object \<open>lr\<close>: the result (the returned table, or the failure) and
  the object afterwards; \<open>None\<close> when a loop never ends. After \<open>ProcessExit\<close> there is no
  object to observe. After a \<open>TypeError\<close> of \<open>calcFirst\<close> or of the worklist loop the second
  component is the object before the call: it stands for the field \<open>table\<close> only, which is
  not assigned up to there. \<open>this.table\<close> is assigned before the rows are filled.
\<close>

definition calcTable :: "LR1 \<Rightarrow> ((failure + LR1_Table) \<times> LR1) option" where
  "calcTable lr =
     (if length (rules lr) = 0 then Some (Inl EmptyGrammar, lr)
      else (case check_rules (new_Set (map lhs (rules lr))) (rules lr) of
              Some e \<Rightarrow> Some (Inl e, lr)
            | None \<Rightarrow>
                (case calcFirst (rules lr) (first lr) of
                   None \<Rightarrow> None
                 | Some (Inl e) \<Rightarrow> Some (Inl e, lr)
                 | Some (Inr fm) \<Rightarrow>
                     (case calcTable_loop
                             (lr\<lparr>first := fm, rules := assign_indices (rules lr),
                                 state_store := state_store lr @
                                   [snd (addItem new_LR1_State
                                      \<lparr>pos = 0, lookAheadSet = set_add ''END'' [],
                                       rule = hd (assign_indices (rules lr))\<rparr>)]\<rparr>)
                             [length (state_store lr)] of
                        None \<Rightarrow> None
                      | Some (Inl e) \<Rightarrow> Some (Inl e, lr)
                      | Some (Inr lr') \<Rightarrow>
                          (case calcTable_rows lr' (states lr') [] of
                             Inl erows \<Rightarrow>
                               Some (Inl (fst erows), lr'\<lparr>table := Some \<lparr>rows = snd erows\<rparr>\<rparr>)
                           | Inr rws \<Rightarrow>
                               Some (Inr \<lparr>rows = rws\<rparr>, lr'\<lparr>table := Some \<lparr>rows = rws\<rparr>\<rparr>))))))"


section \<open>Successor construction never exits\<close>


text \<open>
  The object on which \<open>calcTable\<close> starts its worklist loop for the grammar
  \<^verbatim>\<open>s = a; a = a "x"; a = "y";\<close>: the rules have their indices, the FIRST sets are
  computed and the store holds the initial state \<open>[s = . a, {END}]\<close>.
\<close>

definition lr_sa :: LR1 where
  "lr_sa = new_LR1\<lparr>rules := assign_indices grammar_sa,
                     first := [(''s'', ['':y'']), (''a'', ['':y''])],
                     state_store :=
                       [snd (addItem new_LR1_State
                          \<lparr>pos = 0, lookAheadSet = set_add ''END'' [],
                           rule = hd (assign_indices grammar_sa)\<rparr>)]\<rparr>"

text \<open>
  Claim C10. In a state whose item set is core-unique, the seeds of a successor state
  (the items with the transition symbol right of the dot, advanced by one) have pairwise
  distinct cores; so \<open>addItem\<close> returns true for each of them, the successor state gets
  all of them in order, and \<open>calcItemSet\<close> on such a state never ends in
  \<^verbatim>\<open>process.exit(-1)\<close>: whenever it ends, it returns the successor states, unless the
  closure before the successor construction has thrown its \<open>TypeError\<close>.
\<close>

theorem successor_seeds_never_exit:
  assumes "core_unique items"
  shows "distinct (map (\<lambda>a. core (advance a)) (filter (dot_before ty v) items)) \<and>
         successor_seeds ty v items (new_LR1_State\<lparr>inEdges := es\<rparr>) =
           Inr (new_LR1_State\<lparr>inEdges := es,
                  itemSet := map advance (filter (dot_before ty v) items)\<rparr>) \<and>
         (\<forall>lr q res. q < length (state_store lr) \<and> itemSet (state_store lr ! q) = items \<and>
              calcItemSet lr q = Some res \<longrightarrow>
                res \<noteq> Inl ProcessExit \<and>
                ((\<exists>lr' s. res = Inr (lr', s)) \<or>
                 (res = Inl TypeError \<and>
                  closure_loop (rules lr) (first lr) items = Some (Inl TypeError))))"
proof -
  have a: "distinct (map (\<lambda>a. core (advance a)) (filter (dot_before ty v) items))"
    by (rule core_unique_advance [OF assms])
  have b: "successor_seeds ty v items (new_LR1_State\<lparr>inEdges := es\<rparr>) =
           Inr (new_LR1_State\<lparr>inEdges := es,
                  itemSet := map advance (filter (dot_before ty v) items)\<rparr>)"
    by (rule successor_seeds_fresh [OF assms])
  have c: "res \<noteq> Inl ProcessExit \<and>
      ((\<exists>lr' s. res = Inr (lr', s)) \<or>
       (res = Inl TypeError \<and> closure_loop (rules lr) (first lr) items = Some (Inl TypeError)))"
    if "q < length (state_store lr)" "itemSet (state_store lr ! q) = items"
      "calcItemSet lr q = Some res" for lr q res
    using calcItemSet_no_exit [OF that(1) _ that(3)] assms that(2) by auto
  from a b c show ?thesis by blast
qed

lemma calcItemSet_lr_sa:
  "calcItemSet lr_sa 0 \<noteq> None \<and> calcItemSet lr_sa 0 \<noteq> Some (Inl TypeError)"
  by code_simp

theorem successor_seeds_never_exit_witness:
  "core_unique (itemSet (state_store lr_sa ! 0)) \<and>
   0 < length (state_store lr_sa) \<and>
   successor_seeds NonTerminal ''a'' (itemSet (state_store lr_sa ! 0))
       (new_LR1_State\<lparr>inEdges := [0]\<rparr>) =
     Inr (new_LR1_State\<lparr>inEdges := [0],
            itemSet := [\<lparr>pos = 1, lookAheadSet = [''END''],
                         rule = hd (assign_indices grammar_sa)\<rparr>]\<rparr>) \<and>
   (\<exists>lr' s. calcItemSet lr_sa 0 = Some (Inr (lr', s)))"
proof -
  have cu: "core_unique (itemSet (state_store lr_sa ! 0))"
    by (simp add: lr_sa_def new_LR1_def addItem_def new_LR1_State_def core_unique_def)
  have len: "0 < length (state_store lr_sa)"
    by (simp add: lr_sa_def new_LR1_def)
  from calcItemSet_lr_sa obtain res where res: "calcItemSet lr_sa 0 = Some res"
    and nt: "res \<noteq> Inl TypeError" by auto
  have seeds: "map advance (filter (dot_before NonTerminal ''a'') (itemSet (state_store lr_sa ! 0))) =
      [\<lparr>pos = 1, lookAheadSet = [''END''], rule = hd (assign_indices grammar_sa)\<rparr>]"
    by code_simp
  note inst = successor_seeds_never_exit [OF cu, of NonTerminal "''a''" "[0]"]
  from inst seeds have s: "successor_seeds NonTerminal ''a'' (itemSet (state_store lr_sa ! 0))
       (new_LR1_State\<lparr>inEdges := [0]\<rparr>) =
     Inr (new_LR1_State\<lparr>inEdges := [0],
            itemSet := [\<lparr>pos = 1, lookAheadSet = [''END''],
                         rule = hd (assign_indices grammar_sa)\<rparr>]\<rparr>)"
    by simp
  from inst len res nt have "\<exists>lr' s. res = Inr (lr', s)" by blast
  with res have e: "\<exists>lr' s. calcItemSet lr_sa 0 = Some (Inr (lr', s))" by simp
  from cu len s e show ?thesis by blast
qed


text \<open>
  The grammar \<^verbatim>\<open>s = a toString; a = ; toString = ;\<close>: \<open>calcFirst\<close> makes no set for
  \<^verbatim>\<open>toString\<close> and returns; the closure of the initial state reads \<^verbatim>\<open>first['toString']\<close>
  for the lookahead set of \<open>[a = .]\<close>, finds the inherited member, and throws.
\<close>

lemma calcTable_inherited_first_throws:
  "map_option fst (calcTable (new_LR1\<lparr>rules :=
      [addNonTerminalItem (addNonTerminalItem (new_LR1_Rule ''s'') ''a'') ''toString'',
       new_LR1_Rule ''a'', new_LR1_Rule ''toString'']\<rparr>)) = Some (Inl TypeError)"
  by code_simp


section \<open>The table after a reduce/reduce conflict\<close>

text \<open>The grammar \<^verbatim>\<open>s = a; a = "x"; a = "x";\<close>, with the same rule for \<open>a\<close> twice.\<close>

definition grammar_dup :: "LR1_Rule list" where
  "grammar_dup =
     [addNonTerminalItem (new_LR1_Rule ''s'') ''a'',
      addTerminalItem (new_LR1_Rule ''a'') '':x'',
      addTerminalItem (new_LR1_Rule ''a'') '':x'']"

text \<open>
  Claim C1 fails for the reduce/reduce conflict. On a fresh object with the grammar
  \<^verbatim>\<open>s = a; a = "x"; a = "x";\<close> the table is \<^verbatim>\<open>null\<close> before the call; \<open>calcTable\<close> throws
  the reduce/reduce conflict of the rules 1 and 2, and afterwards \<open>table\<close> holds a table
  of three rows, the last of them empty: \<open>this.table\<close> is assigned before the rows are
  filled.
\<close>

theorem calcTable_conflict_leaves_table:
  "table (new_LR1\<lparr>rules := grammar_dup\<rparr>) = None \<and>
   map_option fst (calcTable (new_LR1\<lparr>rules := grammar_dup\<rparr>)) =
     Some (Inl (ReduceReduceConflict 1 2)) \<and>
   map_option (\<lambda>r. table (snd r)) (calcTable (new_LR1\<lparr>rules := grammar_dup\<rparr>)) =
     Some (Some
       \<lparr>rows =
          [\<lparr>actionEntries = [('':x'', \<lparr>shift = True, entry_value = 2\<rparr>)],
            gotoEntries = [(''a'', \<lparr>shift = True, entry_value = 1\<rparr>)]\<rparr>,
           \<lparr>actionEntries = [(''END'', \<lparr>shift = False, entry_value = 0\<rparr>)],
            gotoEntries = []\<rparr>,
           \<lparr>actionEntries = [], gotoEntries = []\<rparr>]\<rparr>)"
  by code_simp

text \<open>
  The two failures before the automaton is built leave the object as it was, and with
  it the table.
\<close>

lemma calcTable_empty_grammar:
  "rules lr = [] \<Longrightarrow> calcTable lr = Some (Inl EmptyGrammar, lr)"
  by (simp add: calcTable_def)

lemma calcTable_undefined_nonterminal:
  "rules lr \<noteq> [] \<Longrightarrow> check_rules (new_Set (map lhs (rules lr))) (rules lr) = Some e \<Longrightarrow>
     calcTable lr = Some (Inl e, lr)"
  by (simp add: calcTable_def)


section \<open>The rows of the table\<close>

text \<open>
  The assignments that \<open>calcTable\<close> attempts for a state, in the order of the attempts:
  the shift entries and the goto entries of the out-edges \<open>es\<close>, and the reduce entries of
  the items with the dot at the end (\<open>sh\<close> is the value of their field \<open>shift\<close>: true
  inside \<open>calcReduceEntries\<close>, false in the row).
\<close>


definition shift_entries_of :: "LR1 \<Rightarrow> nat list \<Rightarrow> (string \<times> LR1_TableEntry) list" where
  "shift_entries_of lr es =
     map (\<lambda>e. (item_value (label (edge_store lr ! e)),
               \<lparr>shift = True,
                entry_value = state_index (state_store lr ! dest (edge_store lr ! e))\<rparr>))
       (filter (\<lambda>e. item_type (label (edge_store lr ! e)) = Terminal) es)"

definition goto_entries_of :: "LR1 \<Rightarrow> nat list \<Rightarrow> (string \<times> LR1_TableEntry) list" where
  "goto_entries_of lr es =
     map (\<lambda>e. (item_value (label (edge_store lr ! e)),
               \<lparr>shift = True,
                entry_value = state_index (state_store lr ! dest (edge_store lr ! e))\<rparr>))
       (filter (\<lambda>e. item_type (label (edge_store lr ! e)) \<noteq> Terminal) es)"

definition reduce_entries_of :: "bool \<Rightarrow> LR1_StateItem list \<Rightarrow> (string \<times> LR1_TableEntry) list" where
  "reduce_entries_of sh items =
     concat (map (\<lambda>item. map (\<lambda>t. (t, \<lparr>shift = sh, entry_value = rule_index (rule item)\<rparr>))
                           (lookAheadSet item))
                 (filter (\<lambda>item. pos item = length (rhs (rule item))) items))"

lemma update_absent: "map_of al k = None \<Longrightarrow> AList.update k v al = al @ [(k, v)]"
  by (induction al) (auto split: if_splits)

lemma map_of_None_keys: "(map_of al k = None) = (k \<notin> set (map fst al))"
  by (simp add: map_of_eq_None_iff)

lemma js_in_None: "\<not> js_in k (map_of al) \<Longrightarrow> map_of al k = None \<and> k \<notin> set proto_names"
  by (simp add: js_in_def)

text \<open>
  What the loops do when they return a row: every attempted entry is appended, and keys
  that were distinct stay distinct. No entry is ever overwritten.
\<close>

lemma add_outEdges_Inr:
  "add_outEdges lr es row = Inr row' \<Longrightarrow>
     actionEntries row' = actionEntries row @ shift_entries_of lr es \<and>
     gotoEntries row' = gotoEntries row @ goto_entries_of lr es \<and>
     (distinct (map fst (actionEntries row)) \<longrightarrow> distinct (map fst (actionEntries row'))) \<and>
     (distinct (map fst (gotoEntries row)) \<longrightarrow> distinct (map fst (gotoEntries row')))"
proof (induction es arbitrary: row)
  case Nil
  then show ?case by (simp add: shift_entries_of_def goto_entries_of_def)
next
  case (Cons e es)
  let ?k = "item_value (label (edge_store lr ! e))"
  let ?en = "\<lparr>shift = True, entry_value = state_index (state_store lr ! dest (edge_store lr ! e))\<rparr>"
  show ?case
  proof (cases "item_type (label (edge_store lr ! e)) = Terminal")
    case True
    then have sh: "shift_entries_of lr (e # es) = (?k, ?en) # shift_entries_of lr es"
      and go: "goto_entries_of lr (e # es) = goto_entries_of lr es"
      by (simp_all add: shift_entries_of_def goto_entries_of_def)
    let ?row = "row\<lparr>actionEntries := AList.update ?k ?en (actionEntries row)\<rparr>"
    from Cons.prems True have nin: "\<not> js_in ?k (map_of (actionEntries row))"
      and rest: "add_outEdges lr es ?row = Inr row'"
      by (auto split: if_splits)
    from js_in_None [OF nin] have none: "map_of (actionEntries row) ?k = None" by simp
    have upd: "AList.update ?k ?en (actionEntries row) = actionEntries row @ [(?k, ?en)]"
      by (rule update_absent [OF none])
    from none have nk: "?k \<notin> set (map fst (actionEntries row))" by (simp add: map_of_None_keys)
    from Cons.IH [OF rest] have
      a: "actionEntries row' = actionEntries ?row @ shift_entries_of lr es"
      and g: "gotoEntries row' = gotoEntries ?row @ goto_entries_of lr es"
      and d1: "distinct (map fst (actionEntries ?row)) \<longrightarrow> distinct (map fst (actionEntries row'))"
      and d2: "distinct (map fst (gotoEntries ?row)) \<longrightarrow> distinct (map fst (gotoEntries row'))"
      by blast+
    have A: "actionEntries row' = actionEntries row @ shift_entries_of lr (e # es)"
      using a upd unfolding sh by simp
    have G: "gotoEntries row' = gotoEntries row @ goto_entries_of lr (e # es)"
      using g unfolding go by simp
    have D1: "distinct (map fst (actionEntries row)) \<longrightarrow> distinct (map fst (actionEntries row'))"
      using d1 upd nk by simp
    have D2: "distinct (map fst (gotoEntries row)) \<longrightarrow> distinct (map fst (gotoEntries row'))"
      using d2 by simp
    from A G D1 D2 show ?thesis by blast
  next
    case False
    then have sh: "shift_entries_of lr (e # es) = shift_entries_of lr es"
      and go: "goto_entries_of lr (e # es) = (?k, ?en) # goto_entries_of lr es"
      by (simp_all add: shift_entries_of_def goto_entries_of_def)
    let ?row = "row\<lparr>gotoEntries := AList.update ?k ?en (gotoEntries row)\<rparr>"
    from Cons.prems False have nin: "\<not> js_in ?k (map_of (gotoEntries row))"
      and rest: "add_outEdges lr es ?row = Inr row'"
      by (auto split: if_splits)
    from js_in_None [OF nin] have none: "map_of (gotoEntries row) ?k = None" by simp
    have upd: "AList.update ?k ?en (gotoEntries row) = gotoEntries row @ [(?k, ?en)]"
      by (rule update_absent [OF none])
    from none have nk: "?k \<notin> set (map fst (gotoEntries row))" by (simp add: map_of_None_keys)
    from Cons.IH [OF rest] have
      a: "actionEntries row' = actionEntries ?row @ shift_entries_of lr es"
      and g: "gotoEntries row' = gotoEntries ?row @ goto_entries_of lr es"
      and d1: "distinct (map fst (actionEntries ?row)) \<longrightarrow> distinct (map fst (actionEntries row'))"
      and d2: "distinct (map fst (gotoEntries ?row)) \<longrightarrow> distinct (map fst (gotoEntries row'))"
      by blast+
    have A: "actionEntries row' = actionEntries row @ shift_entries_of lr (e # es)"
      using a unfolding sh by simp
    have G: "gotoEntries row' = gotoEntries row @ goto_entries_of lr (e # es)"
      using g upd unfolding go by simp
    have D1: "distinct (map fst (actionEntries row)) \<longrightarrow> distinct (map fst (actionEntries row'))"
      using d1 by simp
    have D2: "distinct (map fst (gotoEntries row)) \<longrightarrow> distinct (map fst (gotoEntries row'))"
      using d2 upd nk by simp
    from A G D1 D2 show ?thesis by blast
  qed
qed

lemma reduce_lookAheads_Inr:
  "reduce_lookAheads idx ts entries = Inr entries' \<Longrightarrow>
     entries' = entries @ map (\<lambda>t. (t, \<lparr>shift = True, entry_value = idx\<rparr>)) ts \<and>
     (distinct (map fst entries) \<longrightarrow> distinct (map fst entries'))"
proof (induction ts arbitrary: entries)
  case Nil
  then show ?case by simp
next
  case (Cons t ts)
  let ?en = "\<lparr>shift = True, entry_value = idx\<rparr>"
  from Cons.prems have none: "map_of entries t = None"
    and rest: "reduce_lookAheads idx ts (AList.update t ?en entries) = Inr entries'"
    by (auto split: option.splits if_splits)
  have upd: "AList.update t ?en entries = entries @ [(t, ?en)]"
    by (rule update_absent [OF none])
  from none have nk: "t \<notin> set (map fst entries)" by (simp add: map_of_None_keys)
  from Cons.IH [OF rest] have
    a: "entries' = AList.update t ?en entries @ map (\<lambda>t. (t, ?en)) ts"
    and d: "distinct (map fst (AList.update t ?en entries)) \<longrightarrow> distinct (map fst entries')"
    by blast+
  have A: "entries' = entries @ map (\<lambda>t. (t, ?en)) (t # ts)" using a upd by simp
  have D: "distinct (map fst entries) \<longrightarrow> distinct (map fst entries')" using d upd nk by simp
  from A D show ?case by blast
qed

lemma reduce_entries_of_Cons:
  "reduce_entries_of sh (item # items) =
     (if pos item = length (rhs (rule item))
      then map (\<lambda>t. (t, \<lparr>shift = sh, entry_value = rule_index (rule item)\<rparr>)) (lookAheadSet item)
      else []) @ reduce_entries_of sh items"
  by (simp add: reduce_entries_of_def)

lemma reduce_entries_of_Nil: "reduce_entries_of sh [] = []"
  by (simp add: reduce_entries_of_def)

lemma reduce_entries_of_unshift:
  "map (\<lambda>te. (fst te, \<lparr>shift = False, entry_value = entry_value (snd te)\<rparr>))
       (reduce_entries_of True items) = reduce_entries_of False items"
  by (induction items) (simp_all add: reduce_entries_of_Nil reduce_entries_of_Cons comp_def)

lemma calcReduceEntries_items_Inr:
  "calcReduceEntries_items items entries = Inr entries' \<Longrightarrow>
     entries' = entries @ reduce_entries_of True items \<and>
     (distinct (map fst entries) \<longrightarrow> distinct (map fst entries'))"
proof (induction items arbitrary: entries)
  case Nil
  then show ?case by (simp add: reduce_entries_of_Nil)
next
  case (Cons item items)
  show ?case
  proof (cases "pos item = length (rhs (rule item))")
    case False
    with Cons.prems have "calcReduceEntries_items items entries = Inr entries'" by simp
    from Cons.IH [OF this] have a: "entries' = entries @ reduce_entries_of True items"
      and d: "distinct (map fst entries) \<longrightarrow> distinct (map fst entries')" by blast+
    from False have "reduce_entries_of True (item # items) = reduce_entries_of True items"
      by (simp add: reduce_entries_of_Cons)
    with a d show ?thesis by simp
  next
    case True
    with Cons.prems obtain mid where
      la: "reduce_lookAheads (rule_index (rule item)) (lookAheadSet item) entries = Inr mid"
      and rest: "calcReduceEntries_items items mid = Inr entries'"
      by (auto split: sum.splits)
    from reduce_lookAheads_Inr [OF la] have
      m: "mid = entries @ map (\<lambda>t. (t, \<lparr>shift = True, entry_value = rule_index (rule item)\<rparr>))
                           (lookAheadSet item)"
      and dm: "distinct (map fst entries) \<longrightarrow> distinct (map fst mid)" by blast+
    from Cons.IH [OF rest] have a: "entries' = mid @ reduce_entries_of True items"
      and d: "distinct (map fst mid) \<longrightarrow> distinct (map fst entries')" by blast+
    have A: "entries' = entries @ reduce_entries_of True (item # items)"
      using a m True by (simp add: reduce_entries_of_Cons)
    from A dm d show ?thesis by blast
  qed
qed

lemma add_reduceEntries_Inr:
  "add_reduceEntries tes row = Inr row' \<Longrightarrow>
     actionEntries row' = actionEntries row @
       map (\<lambda>te. (fst te, \<lparr>shift = False, entry_value = entry_value (snd te)\<rparr>)) tes \<and>
     gotoEntries row' = gotoEntries row \<and>
     (distinct (map fst (actionEntries row)) \<longrightarrow> distinct (map fst (actionEntries row')))"
proof (induction tes arbitrary: row)
  case Nil
  then show ?case by simp
next
  case (Cons te tes)
  let ?en = "\<lparr>shift = False, entry_value = entry_value (snd te)\<rparr>"
  let ?row = "row\<lparr>actionEntries := AList.update (fst te) ?en (actionEntries row)\<rparr>"
  from Cons.prems have nin: "\<not> js_in (fst te) (map_of (actionEntries row))"
    and rest: "add_reduceEntries tes ?row = Inr row'"
    by (auto split: if_splits)
  from js_in_None [OF nin] have none: "map_of (actionEntries row) (fst te) = None" by simp
  have upd: "AList.update (fst te) ?en (actionEntries row) = actionEntries row @ [(fst te, ?en)]"
    by (rule update_absent [OF none])
  from none have nk: "fst te \<notin> set (map fst (actionEntries row))" by (simp add: map_of_None_keys)
  from Cons.IH [OF rest] have
    a: "actionEntries row' = actionEntries ?row @
       map (\<lambda>te. (fst te, \<lparr>shift = False, entry_value = entry_value (snd te)\<rparr>)) tes"
    and g: "gotoEntries row' = gotoEntries ?row"
    and d: "distinct (map fst (actionEntries ?row)) \<longrightarrow> distinct (map fst (actionEntries row'))"
    by blast+
  have A: "actionEntries row' = actionEntries row @
       map (\<lambda>te. (fst te, \<lparr>shift = False, entry_value = entry_value (snd te)\<rparr>)) (te # tes)"
    using a upd by simp
  have G: "gotoEntries row' = gotoEntries row" using g by simp
  have D: "distinct (map fst (actionEntries row)) \<longrightarrow> distinct (map fst (actionEntries row'))"
    using d upd nk by simp
  from A G D show ?case by blast
qed

lemma calcTable_row_Inr:
  assumes "calcTable_row lr st = Inr row"
  shows "actionEntries row =
           shift_entries_of lr (outEdges st) @ reduce_entries_of False (itemSet st) \<and>
         gotoEntries row = goto_entries_of lr (outEdges st) \<and>
         distinct (map fst (actionEntries row)) \<and> distinct (map fst (gotoEntries row))"
proof -
  from assms obtain row1 entries where
    e: "add_outEdges lr (outEdges st) \<lparr>actionEntries = [], gotoEntries = []\<rparr> = Inr row1"
    and r: "calcReduceEntries_items (itemSet st) [] = Inr entries"
    and a: "add_reduceEntries entries row1 = Inr row"
    unfolding calcTable_row_def calcReduceEntries_def by (auto split: sum.splits)
  from calcReduceEntries_items_Inr [OF r] have en: "entries = reduce_entries_of True (itemSet st)"
    by simp
  from add_outEdges_Inr [OF e] have
    a1: "actionEntries row1 = shift_entries_of lr (outEdges st)"
    and g1: "gotoEntries row1 = goto_entries_of lr (outEdges st)"
    and d1: "distinct (map fst (actionEntries row1))"
    and dg: "distinct (map fst (gotoEntries row1))" by auto
  from add_reduceEntries_Inr [OF a] have
    a2: "actionEntries row = actionEntries row1 @
       map (\<lambda>te. (fst te, \<lparr>shift = False, entry_value = entry_value (snd te)\<rparr>)) entries"
    and g2: "gotoEntries row = gotoEntries row1"
    and d2: "distinct (map fst (actionEntries row1)) \<longrightarrow> distinct (map fst (actionEntries row))"
    by blast+
  have A: "actionEntries row =
      shift_entries_of lr (outEdges st) @ reduce_entries_of False (itemSet st)"
    unfolding a2 a1 en reduce_entries_of_unshift ..
  have G: "gotoEntries row = goto_entries_of lr (outEdges st)" unfolding g2 g1 ..
  from d1 d2 have D: "distinct (map fst (actionEntries row))" by blast
  from dg g2 have DG: "distinct (map fst (gotoEntries row))" by simp
  from A G D DG show ?thesis by blast
qed

lemma calcTable_rows_char:
  "calcTable_rows lr ss rws = Inr rws' \<Longrightarrow>
     length rws' = length rws + length ss \<and> take (length rws) rws' = rws \<and>
     (\<forall>i < length ss. calcTable_row lr (state_store lr ! (ss ! i)) = Inr (rws' ! (length rws + i)))"
proof (induction ss arbitrary: rws)
  case Nil
  then show ?case by simp
next
  case (Cons s ss)
  from Cons.prems obtain row where
    row: "calcTable_row lr (state_store lr ! s) = Inr row" and
    rest: "calcTable_rows lr ss (rws @ [row]) = Inr rws'"
    by (auto split: sum.splits)
  from Cons.IH [OF rest] have
    len: "length rws' = length rws + 1 + length ss" and
    tk: "take (length rws + 1) rws' = rws @ [row]" and
    ih: "\<forall>i < length ss. calcTable_row lr (state_store lr ! (ss ! i)) = Inr (rws' ! (length rws + 1 + i))"
    by simp_all
  from tk have tk': "take (length rws) rws' = rws"
    by (metis append_eq_conv_conj length_append_singleton take_Suc_conv_app_nth Suc_eq_plus1 butlast_snoc butlast_take diff_add_inverse2 len le_add1 trans_le_add1)
  from tk have at: "rws' ! length rws = row"
    by (metis nth_append_length nth_take lessI Suc_eq_plus1)
  have "calcTable_row lr (state_store lr ! ((s # ss) ! i)) = Inr (rws' ! (length rws + i))"
    if "i < length (s # ss)" for i
  proof (cases i)
    case 0
    with row at show ?thesis by simp
  next
    case (Suc j)
    with that ih show ?thesis by simp
  qed
  with len tk' show ?case by simp
qed



text \<open>The grammar \<^verbatim>\<open>s = a "x"; a = "x"; a = "x" "x";\<close>.\<close>

definition grammar_sr :: "LR1_Rule list" where
  "grammar_sr =
     [addTerminalItem (addNonTerminalItem (new_LR1_Rule ''s'') ''a'') '':x'',
      addTerminalItem (new_LR1_Rule ''a'') '':x'',
      addTerminalItem (addTerminalItem (new_LR1_Rule ''a'') '':x'') '':x'']"

lemma add_outEdges_table:
  "add_outEdges (lr\<lparr>table := t\<rparr>) es row = add_outEdges lr es row"
  by (induction es arbitrary: row) simp_all

lemma calcTable_row_table: "calcTable_row (lr\<lparr>table := t\<rparr>) st = calcTable_row lr st"
  by (simp add: calcTable_row_def add_outEdges_table)

lemma calcTable_returns_rows:
  assumes "calcTable lr = Some (Inr tbl, lr')"
  shows "\<exists>lr''. lr' = lr''\<lparr>table := Some tbl\<rparr> \<and>
           calcTable_rows lr'' (states lr'') [] = Inr (rows tbl)"
  using assms unfolding calcTable_def
  by (auto split: if_splits option.splits sum.splits)

text \<open>
  The grammar \<^verbatim>\<open>s = "x" constructor; constructor = ;\<close> has no conflict, and \<open>calcTable\<close>
  ends the process all the same: \<^verbatim>\<open>'constructor' in row.gotoEntries\<close> holds for the empty
  row.
\<close>

lemma calcTable_inherited_goto_exits:
  "map_option fst (calcTable (new_LR1\<lparr>rules :=
      [addNonTerminalItem (addTerminalItem (new_LR1_Rule ''s'') '':x'') ''constructor'',
       new_LR1_Rule ''constructor'']\<rparr>)) = Some (Inl ProcessExit)"
  by code_simp

text \<open>
  Claim C2 fails in the program. A row that \<open>calcTable\<close> returns holds exactly the
  attempted entries under distinct keys (\<open>calcTable_row_Inr\<close>), so no entry is ever
  overwritten; but a collision does not raise a conflict error unless it is a
  reduce/reduce collision. On a fresh object with the grammar
  \<^verbatim>\<open>s = a "x"; a = "x"; a = "x" "x";\<close> the state reached over \<open>a\<close>'s first \<^verbatim>\<open>"x"\<close> has a
  shift and a reduce on \<^verbatim>\<open>"x"\<close>: \<open>calcTable\<close> ends the process with \<^verbatim>\<open>process.exit(-1)\<close> in
  the branch marked \<^verbatim>\<open>TODO\<close>, and nothing is thrown.
\<close>

theorem calcTable_shift_reduce_exits:
  "map_option fst (calcTable (new_LR1\<lparr>rules := grammar_sr\<rparr>)) = Some (Inl ProcessExit)"
  by code_simp

lemma calcTable_grammar_sa:
  "map_option fst (calcTable (new_LR1\<lparr>rules := grammar_sa\<rparr>)) =
     Some (Inr \<lparr>rows =
          [\<lparr>actionEntries = [('':y'', \<lparr>shift = True, entry_value = 3\<rparr>)],
            gotoEntries = [(''a'', \<lparr>shift = True, entry_value = 1\<rparr>)]\<rparr>,
           \<lparr>actionEntries =
              [('':x'', \<lparr>shift = True, entry_value = 2\<rparr>),
               (''END'', \<lparr>shift = False, entry_value = 0\<rparr>)],
            gotoEntries = []\<rparr>,
           \<lparr>actionEntries =
              [(''END'', \<lparr>shift = False, entry_value = 1\<rparr>),
               ('':x'', \<lparr>shift = False, entry_value = 1\<rparr>)],
            gotoEntries = []\<rparr>,
           \<lparr>actionEntries =
              [(''END'', \<lparr>shift = False, entry_value = 2\<rparr>),
               ('':x'', \<lparr>shift = False, entry_value = 2\<rparr>)],
            gotoEntries = []\<rparr>]\<rparr>)"
  by code_simp

lemma calcTable_grammar_sa_states:
  "map_option (\<lambda>r. states (snd r)) (calcTable (new_LR1\<lparr>rules := grammar_sa\<rparr>)) =
     Some [0, 2, 3, 1]"
  by code_simp


section \<open>The token source\<close>

text \<open>
  Modelled from the spec: the token source (the class \<^verbatim>\<open>Lexer\<close> and the types
  \<^verbatim>\<open>LexerToken\<close> and \<^verbatim>\<open>LexerTokenType\<close> of the package \<^verbatim>\<open>@multila/multila-lexer\<close>, which
  are not part of the sources). The spec (6.2) gives it a current token, an advance
  operation, an end-of-input predicate and an error-raising operation; a token has a type
  tag, a lexeme and a numeric value. The parser uses the type tag itself as the key of the
  token class (\<^verbatim>\<open>actionEntries[tk.type]\<close>), so \<open>type_key\<close> gives each tag its string: the
  token classes \<open>INT\<close>, \<open>REAL\<close>, \<open>HEX\<close>, \<open>ID\<close>, \<open>STR\<close>, \<open>END\<close> of the spec, and \<open>TER\<close> and
  \<open>DEL\<close> for the two other tags that \<open>parse\<close> names. The token source is the list of the
  tokens still to read, followed by end-of-input tokens; \<^verbatim>\<open>lexer.error\<close> raises.
\<close>

datatype LexerTokenType = TK_DEL | TK_TER | TK_INT | TK_REAL | TK_HEX | TK_STR | TK_ID | TK_END

fun type_key :: "LexerTokenType \<Rightarrow> string" where
  "type_key TK_DEL = ''DEL''"
| "type_key TK_TER = ''TER''"
| "type_key TK_INT = ''INT''"
| "type_key TK_REAL = ''REAL''"
| "type_key TK_HEX = ''HEX''"
| "type_key TK_STR = ''STR''"
| "type_key TK_ID = ''ID''"
| "type_key TK_END = ''END''"

record LexerToken =
  token_type :: LexerTokenType
  token :: string
  token_value :: int

definition lexer_getToken :: "LexerToken list \<Rightarrow> LexerToken" where
  "lexer_getToken lx =
     (case lx of
        [] \<Rightarrow> \<lparr>token_type = TK_END, token = [], token_value = 0\<rparr>
      | tk # _ \<Rightarrow> tk)"

definition lexer_next :: "LexerToken list \<Rightarrow> LexerToken list" where
  "lexer_next lx = tl lx"

definition lexer_isEND :: "LexerToken list \<Rightarrow> bool" where
  "lexer_isEND lx = (token_type (lexer_getToken lx) = TK_END)"

section \<open>The parser (LR1.parse)\<close>

text \<open>
  The parse stack \<^verbatim>\<open>(LexerToken | string | number)[]\<close>, which can also come to hold
  \<^verbatim>\<open>undefined\<close>, and the state of a parse: the stack, the token source and the state of
  the user that the callbacks see and change. A callback gets the list \<open>terminals\<close>
  (whatever the stack held at those places) and the user's state, and returns the new
  state or throws.
\<close>

datatype stack_item = StateNumber int | Token LexerToken | NonTerminalId string | Undefined

record 'u parse_state =
  stack :: "stack_item list"
  lexer :: "LexerToken list"
  user :: 'u

text \<open>
  The object \<^verbatim>\<open>callBacks\<close>: \<open>registered\<close> are its own properties, the callbacks that
  \<^verbatim>\<open>addCallback\<close> has added, and its prototype is \<^verbatim>\<open>Object.prototype\<close> (\<^verbatim>\<open>addCallback\<close> with
  the identifier \<^verbatim>\<open>__proto__\<close> would replace the prototype and is not covered). What the
  call \<^verbatim>\<open>this.callBacks[id](terminals)\<close> of an inherited member does is not part of the
  program: it is the parameter \<open>inherited\<close>.
\<close>

record 'u callbacks =
  registered :: "string \<Rightarrow> (stack_item list \<Rightarrow> 'u \<Rightarrow> failure + 'u) option"
  inherited :: "string \<Rightarrow> stack_item list \<Rightarrow> 'u \<Rightarrow> failure + 'u"

datatype 'u step_result = Failed failure | Finished "'u parse_state" | Continue "'u parse_state"

text \<open>
  \<^verbatim>\<open>this.table.rows[s]\<close> for the element \<open>s\<close> on top of the stack, followed by a property
  read: a \<open>TypeError\<close> unless \<open>s\<close> is the number of a row.
\<close>

definition table_row :: "LR1_Table \<Rightarrow> stack_item list \<Rightarrow> failure + LR1_TableRow" where
  "table_row tbl stk =
     (if stk = [] then Inl TypeError
      else (case last stk of
              StateNumber n \<Rightarrow>
                if 0 \<le> n \<and> nat n < length (rows tbl) then Inr (rows tbl ! nat n)
                else Inl TypeError
            | Token _ \<Rightarrow> Inl TypeError
            | NonTerminalId _ \<Rightarrow> Inl TypeError
            | Undefined \<Rightarrow> Inl TypeError))"

text \<open>
  The search for the action entry: for a token of type \<open>TER\<close>, \<open>DEL\<close> or \<open>ID\<close> the key
  \<^verbatim>\<open>':' + tk.token\<close> first, and the key \<^verbatim>\<open>tk.type\<close> when \<open>entry\<close> is still \<^verbatim>\<open>null\<close>.
\<close>

definition find_entry :: "LR1_TableRow \<Rightarrow> LexerToken \<Rightarrow> LR1_TableEntry option" where
  "find_entry row tk =
     (case (if token_type tk = TK_TER \<or> token_type tk = TK_DEL \<or> token_type tk = TK_ID
            then map_of (actionEntries row) (CHR '':'' # token tk)
            else None) of
        Some entry \<Rightarrow> Some entry
      | None \<Rightarrow> map_of (actionEntries row) (type_key (token_type tk)))"

text \<open>
  \<^verbatim>\<open>stack.splice(start)\<close>: a negative \<open>start\<close> counts from the end (and not below 0), a
  \<open>start\<close> beyond the end is the end; the elements from there on are removed and returned.
  The result is the pair of what stays and what is removed.
\<close>

definition js_splice :: "'a list \<Rightarrow> int \<Rightarrow> 'a list \<times> 'a list" where
  "js_splice xs start =
     (let n = (if start < 0 then max (int (length xs) + start) 0
               else min start (int (length xs)))
      in (take (nat n) xs, drop (nat n) xs))"

text \<open>
  The list \<open>terminals\<close>: \<^verbatim>\<open>items[i * 2]\<close> for every \<open>i\<close> below \<^verbatim>\<open>items.length >> 1\<close> whose
  right-hand-side item is a terminal.
\<close>

definition collect_terminals :: "LR1_Rule \<Rightarrow> stack_item list \<Rightarrow> stack_item list" where
  "collect_terminals r items =
     map (\<lambda>i. items ! (i * 2))
       (filter (\<lambda>i. item_type (rhs r ! i) = Terminal) [0 ..< length items div 2])"

text \<open>
  The block \<^verbatim>\<open>if (rule.callBackId.length > 0) { ... }\<close>: the error unless
  \<^verbatim>\<open>rule.callBackId in this.callBacks\<close> holds, then the call of
  \<^verbatim>\<open>this.callBacks[rule.callBackId]\<close>, which is the registered callback or else the
  inherited member.
\<close>

definition run_callback :: "'u callbacks \<Rightarrow> LR1_Rule \<Rightarrow> stack_item list \<Rightarrow> 'u \<Rightarrow> failure + 'u" where
  "run_callback cbs r items u =
     (if length (callBackId r) > 0
      then (if js_in (callBackId r) (registered cbs) = False
            then Inl (UnimplementedCallback (callBackId r))
            else (case registered cbs (callBackId r) of
                    Some f \<Rightarrow> f (collect_terminals r items) u
                  | None \<Rightarrow> inherited cbs (callBackId r) (collect_terminals r items) u))
      else Inr u)"

text \<open>
  The end of a reduction: for the root rule the check of the end of input and the
  return; otherwise the left-hand side and \<^verbatim>\<open>gotoEntries[rule.lhs].value\<close> are pushed. For
  a left-hand side without a goto entry, \<^verbatim>\<open>gotoEntries[rule.lhs]\<close> is the inherited member
  of that name, whose \<^verbatim>\<open>value\<close> is \<^verbatim>\<open>undefined\<close>, or else it is \<^verbatim>\<open>undefined\<close> itself, and the
  read of \<^verbatim>\<open>value\<close> throws.
\<close>

definition reduce_goto :: "LR1_Table \<Rightarrow> LR1_Rule \<Rightarrow> bool \<Rightarrow> 'u parse_state \<Rightarrow> 'u step_result" where
  "reduce_goto tbl r rootRule ps =
     (if rootRule
      then (if lexer_isEND (lexer ps) = False then Failed ExpectedEND else Finished ps)
      else (case table_row tbl (stack ps) of
              Inl e \<Rightarrow> Failed e
            | Inr row \<Rightarrow>
                (case map_of (gotoEntries row) (lhs r) of
                   None \<Rightarrow>
                     if lhs r \<in> set proto_names
                     then Continue (ps\<lparr>stack := stack ps @ [NonTerminalId (lhs r), Undefined]\<rparr>)
                     else Failed TypeError
                 | Some g \<Rightarrow>
                     Continue (ps\<lparr>stack := stack ps @
                                 [NonTerminalId (lhs r), StateNumber (entry_value g)]\<rparr>))))"

text \<open>The \<open>else\<close> branch of the loop body: the reduction by the rule \<open>rules[entry.value]\<close>.\<close>

definition parse_reduce :: "LR1_Table \<Rightarrow> LR1_Rule list \<Rightarrow> 'u callbacks \<Rightarrow> LR1_TableEntry \<Rightarrow> 'u parse_state \<Rightarrow> 'u step_result" where
  "parse_reduce tbl rs cbs entry ps =
     (if entry_value entry < 0 \<or> nat (entry_value entry) \<ge> length rs then Failed TypeError
      else (case run_callback cbs (rs ! nat (entry_value entry))
                   (snd (js_splice (stack ps)
                      (int (length (stack ps)) -
                       2 * int (length (rhs (rs ! nat (entry_value entry)))))))
                   (user ps) of
              Inl e \<Rightarrow> Failed e
            | Inr u \<Rightarrow>
                reduce_goto tbl (rs ! nat (entry_value entry)) (entry_value entry = 0)
                  (ps\<lparr>stack := fst (js_splice (stack ps)
                                 (int (length (stack ps)) -
                                  2 * int (length (rhs (rs ! nat (entry_value entry)))))),
                      user := u\<rparr>)))"

text \<open>What the loop body does with the entry it found: shift or reduce.\<close>

definition parse_action :: "LR1_Table \<Rightarrow> LR1_Rule list \<Rightarrow> 'u callbacks \<Rightarrow> LR1_TableEntry \<Rightarrow> 'u parse_state \<Rightarrow> 'u step_result" where
  "parse_action tbl rs cbs entry ps =
     (if shift entry
      then Continue (ps\<lparr>stack := stack ps @
                          [Token (lexer_getToken (lexer ps)), StateNumber (entry_value entry)],
                        lexer := lexer_next (lexer ps)\<rparr>)
      else parse_reduce tbl rs cbs entry ps)"

text \<open>One round of the loop \<^verbatim>\<open>for (;;)\<close>.\<close>

definition parse_step :: "LR1_Table \<Rightarrow> LR1_Rule list \<Rightarrow> 'u callbacks \<Rightarrow> 'u parse_state \<Rightarrow> 'u step_result" where
  "parse_step tbl rs cbs ps =
     (case table_row tbl (stack ps) of
        Inl e \<Rightarrow> Failed e
      | Inr row \<Rightarrow>
          (case find_entry row (lexer_getToken (lexer ps)) of
             None \<Rightarrow> Failed (UnexpectedToken (token (lexer_getToken (lexer ps))))
           | Some entry \<Rightarrow> parse_action tbl rs cbs entry ps))"

partial_function (option) parse_loop :: "LR1_Table \<Rightarrow> LR1_Rule list \<Rightarrow> 'u callbacks \<Rightarrow> 'u parse_state \<Rightarrow> 'u step_result option" where
  "parse_loop tbl rs cbs ps =
     (case parse_step tbl rs cbs ps of
        Failed e \<Rightarrow> Some (Failed e)
      | Finished ps' \<Rightarrow> Some (Finished ps')
      | Continue ps' \<Rightarrow> parse_loop tbl rs cbs ps')"

declare parse_loop.simps [code]

text \<open>
  \<^verbatim>\<open>parse\<close>: the two checks of the table, the stack with the state 0, the loop. \<open>None\<close>
  stands for a parse that never ends.
\<close>

definition parse :: "LR1 \<Rightarrow> 'u callbacks \<Rightarrow> LexerToken list \<Rightarrow> 'u \<Rightarrow> 'u step_result option" where
  "parse lr cbs lx u =
     (case table lr of
        None \<Rightarrow> Some (Failed TableNotGenerated)
      | Some tbl \<Rightarrow>
          if length (rows tbl) = 0 then Some (Failed TableHasNoRules)
          else parse_loop tbl (rules lr) cbs \<lparr>stack = [StateNumber 0], lexer = lx, user = u\<rparr>)"



section \<open>Properties of the parser\<close>

text \<open>
  The grammar \<^verbatim>\<open>s = "a" t "c" -> cb; t = ID;\<close>, its table as \<open>calcTable\<close> builds it, the
  input \<^verbatim>\<open>a foo c\<close>, and a callback \<open>cb\<close> that records the list it is called with.
\<close>

definition grammar_atc :: "LR1_Rule list" where
  "grammar_atc =
     [(addTerminalItem (addNonTerminalItem (addTerminalItem (new_LR1_Rule ''s'') '':a'') ''t'') '':c'')
        \<lparr>callBackId := ''cb''\<rparr>,
      addTerminalItem (new_LR1_Rule ''t'') ''ID'']"

definition table_atc :: LR1_Table where
  "table_atc =
     \<lparr>rows =
        [\<lparr>actionEntries = [('':a'', \<lparr>shift = True, entry_value = 1\<rparr>)], gotoEntries = []\<rparr>,
         \<lparr>actionEntries = [(''ID'', \<lparr>shift = True, entry_value = 4\<rparr>)],
          gotoEntries = [(''t'', \<lparr>shift = True, entry_value = 2\<rparr>)]\<rparr>,
         \<lparr>actionEntries = [('':c'', \<lparr>shift = True, entry_value = 3\<rparr>)], gotoEntries = []\<rparr>,
         \<lparr>actionEntries = [(''END'', \<lparr>shift = False, entry_value = 0\<rparr>)], gotoEntries = []\<rparr>,
         \<lparr>actionEntries = [('':c'', \<lparr>shift = False, entry_value = 1\<rparr>)], gotoEntries = []\<rparr>]\<rparr>"

definition tokens_atc :: "LexerToken list" where
  "tokens_atc =
     [\<lparr>token_type = TK_ID, token = ''a'', token_value = 0\<rparr>,
      \<lparr>token_type = TK_ID, token = ''foo'', token_value = 0\<rparr>,
      \<lparr>token_type = TK_ID, token = ''c'', token_value = 0\<rparr>]"

text \<open>
  The members of \<^verbatim>\<open>Object.prototype\<close> called as callbacks, on an object \<^verbatim>\<open>callBacks\<close> that
  has no own property \<^verbatim>\<open>toString\<close>: \<^verbatim>\<open>__proto__\<close> is not a function,
  \<^verbatim>\<open>__defineGetter__\<close> and \<^verbatim>\<open>__defineSetter__\<close> throw a \<open>TypeError\<close> for the function they do
  not get, and the others return without any effect on the user's state (the tokens are
  taken to convert to strings without an exception). This is the value of \<open>inherited\<close> in
  the examples; the general statements hold for every value of \<open>inherited\<close>.
\<close>

definition prototype_call :: "string \<Rightarrow> stack_item list \<Rightarrow> 'u \<Rightarrow> failure + 'u" where
  "prototype_call name args u =
     (if name \<in> set [''__proto__'', ''__defineGetter__'', ''__defineSetter__'']
      then Inl TypeError else Inr u)"

definition no_callbacks :: "'u callbacks" where
  "no_callbacks = \<lparr>registered = (\<lambda>_. None), inherited = prototype_call\<rparr>"

definition record_call :: "stack_item list list callbacks" where
  "record_call =
     \<lparr>registered = [''cb'' \<mapsto> (\<lambda>terminals u. Inr (u @ [terminals]))],
      inherited = prototype_call\<rparr>"

text \<open>The stack of the parse of \<^verbatim>\<open>a foo c\<close> when the root rule is reduced.\<close>

definition stack_atc :: "stack_item list" where
  "stack_atc =
     [StateNumber 0, Token \<lparr>token_type = TK_ID, token = ''a'', token_value = 0\<rparr>,
      StateNumber 1, NonTerminalId ''t'',
      StateNumber 2, Token \<lparr>token_type = TK_ID, token = ''c'', token_value = 0\<rparr>,
      StateNumber 3]"

lemma calcTable_grammar_atc:
  "map_option fst (calcTable (new_LR1\<lparr>rules := grammar_atc\<rparr>)) = Some (Inr table_atc)"
  by code_simp

lemma calcTable_grammar_atc_rules:
  "map_option (\<lambda>r. rules (snd r)) (calcTable (new_LR1\<lparr>rules := grammar_atc\<rparr>)) =
     Some (assign_indices grammar_atc)"
  by code_simp

lemma parse_grammar_atc:
  "Option.bind (calcTable (new_LR1\<lparr>rules := grammar_atc\<rparr>))
     (\<lambda>r. parse (snd r) record_call tokens_atc []) =
   Some (Finished \<lparr>stack = [StateNumber 0], lexer = [],
     user = [[Token \<lparr>token_type = TK_ID, token = ''a'', token_value = 0\<rparr>,
              Token \<lparr>token_type = TK_ID, token = ''c'', token_value = 0\<rparr>]]\<rparr>)"
  by code_simp

text \<open>
  The grammar \<^verbatim>\<open>s = "(" s ")"; s = "a";\<close>, whose root rule is reduced inside the input,
  its table, and the stack of the parse of \<^verbatim>\<open>( ( a ) )\<close> at the first reduction of the root
  rule, when the last \<^verbatim>\<open>)\<close> is still to read.
\<close>

definition grammar_paren :: "LR1_Rule list" where
  "grammar_paren =
     [addTerminalItem (addNonTerminalItem (addTerminalItem (new_LR1_Rule ''s'') '':('') ''s'') '':)'',
      addTerminalItem (new_LR1_Rule ''s'') '':a'']"

definition table_paren :: LR1_Table where
  "table_paren =
     \<lparr>rows =
        [\<lparr>actionEntries = [('':('', \<lparr>shift = True, entry_value = 1\<rparr>)], gotoEntries = []\<rparr>,
         \<lparr>actionEntries =
            [('':('', \<lparr>shift = True, entry_value = 5\<rparr>), ('':a'', \<lparr>shift = True, entry_value = 4\<rparr>)],
          gotoEntries = [(''s'', \<lparr>shift = True, entry_value = 2\<rparr>)]\<rparr>,
         \<lparr>actionEntries = [('':)'', \<lparr>shift = True, entry_value = 3\<rparr>)], gotoEntries = []\<rparr>,
         \<lparr>actionEntries = [(''END'', \<lparr>shift = False, entry_value = 0\<rparr>)], gotoEntries = []\<rparr>,
         \<lparr>actionEntries = [('':)'', \<lparr>shift = False, entry_value = 1\<rparr>)], gotoEntries = []\<rparr>,
         \<lparr>actionEntries =
            [('':('', \<lparr>shift = True, entry_value = 5\<rparr>), ('':a'', \<lparr>shift = True, entry_value = 4\<rparr>)],
          gotoEntries = [(''s'', \<lparr>shift = True, entry_value = 6\<rparr>)]\<rparr>,
         \<lparr>actionEntries = [('':)'', \<lparr>shift = True, entry_value = 7\<rparr>)], gotoEntries = []\<rparr>,
         \<lparr>actionEntries = [('':)'', \<lparr>shift = False, entry_value = 0\<rparr>)], gotoEntries = []\<rparr>]\<rparr>"

definition stack_paren :: "stack_item list" where
  "stack_paren =
     [StateNumber 0, Token \<lparr>token_type = TK_DEL, token = ''('', token_value = 0\<rparr>,
      StateNumber 1, Token \<lparr>token_type = TK_DEL, token = ''('', token_value = 0\<rparr>,
      StateNumber 5, NonTerminalId ''s'',
      StateNumber 6, Token \<lparr>token_type = TK_DEL, token = '')'', token_value = 0\<rparr>,
      StateNumber 7]"

lemma calcTable_grammar_paren:
  "map_option fst (calcTable (new_LR1\<lparr>rules := grammar_paren\<rparr>)) = Some (Inr table_paren)"
  by code_simp

lemma parse_grammar_paren:
  "Option.bind (calcTable (new_LR1\<lparr>rules := grammar_paren\<rparr>))
     (\<lambda>r. parse (snd r) no_callbacks
        [\<lparr>token_type = TK_DEL, token = ''('', token_value = 0\<rparr>,
         \<lparr>token_type = TK_DEL, token = ''('', token_value = 0\<rparr>,
         \<lparr>token_type = TK_ID, token = ''a'', token_value = 0\<rparr>,
         \<lparr>token_type = TK_DEL, token = '')'', token_value = 0\<rparr>,
         \<lparr>token_type = TK_DEL, token = '')'', token_value = 0\<rparr>] ()) =
   Some (Failed ExpectedEND)"
  by code_simp

text \<open>
  Claim C7. In a parse step on a row of the table, for a current token of type \<open>TER\<close>,
  \<open>DEL\<close> or \<open>ID\<close>: the entry under the key \<^verbatim>\<open>':' + tk.token\<close> is the action when there is
  one; otherwise the entry under the key of the token class is; and with neither, the step
  raises the unexpected-token error with the lexeme.
\<close>

theorem parse_step_lookup_order:
  assumes "table_row tbl (stack ps) = Inr row"
    and "token_type (lexer_getToken (lexer ps)) = TK_TER \<or>
         token_type (lexer_getToken (lexer ps)) = TK_DEL \<or>
         token_type (lexer_getToken (lexer ps)) = TK_ID"
  shows "parse_step tbl rs cbs ps =
     (case map_of (actionEntries row) (CHR '':'' # token (lexer_getToken (lexer ps))) of
        Some entry \<Rightarrow> parse_action tbl rs cbs entry ps
      | None \<Rightarrow>
          (case map_of (actionEntries row) (type_key (token_type (lexer_getToken (lexer ps)))) of
             Some entry \<Rightarrow> parse_action tbl rs cbs entry ps
           | None \<Rightarrow> Failed (UnexpectedToken (token (lexer_getToken (lexer ps))))))"
  using assms by (auto simp: parse_step_def find_entry_def split: option.splits)

theorem parse_step_lookup_order_witness:
  "table_row table_atc [StateNumber 0] = Inr (rows table_atc ! 0) \<and>
   token_type (lexer_getToken tokens_atc) = TK_ID \<and>
   parse_step table_atc (assign_indices grammar_atc) record_call
       \<lparr>stack = [StateNumber 0], lexer = tokens_atc, user = []\<rparr> =
     Continue \<lparr>stack = [StateNumber 0, Token (lexer_getToken tokens_atc), StateNumber 1],
               lexer = tl tokens_atc, user = []\<rparr> \<and>
   table_row table_atc (take 3 stack_atc) = Inr (rows table_atc ! 1) \<and>
   token_type (lexer_getToken (tl tokens_atc)) = TK_ID \<and>
   map_of (actionEntries (rows table_atc ! 1)) (CHR '':'' # token (lexer_getToken (tl tokens_atc))) = None \<and>
   parse_step table_atc (assign_indices grammar_atc) record_call
       \<lparr>stack = take 3 stack_atc, lexer = tl tokens_atc, user = []\<rparr> =
     Continue \<lparr>stack = take 3 stack_atc @ [Token (lexer_getToken (tl tokens_atc)), StateNumber 4],
               lexer = tl (tl tokens_atc), user = []\<rparr>"
proof -
  have r0: "table_row table_atc [StateNumber 0] = Inr (rows table_atc ! 0)"
    by (simp add: table_row_def table_atc_def)
  have t0: "token_type (lexer_getToken tokens_atc) = TK_ID"
    by (simp add: lexer_getToken_def tokens_atc_def)
  have r1: "table_row table_atc (take 3 stack_atc) = Inr (rows table_atc ! 1)"
    by (simp add: table_row_def table_atc_def stack_atc_def)
  have t1: "token_type (lexer_getToken (tl tokens_atc)) = TK_ID"
    by (simp add: lexer_getToken_def tokens_atc_def)
  have n1: "map_of (actionEntries (rows table_atc ! 1))
      (CHR '':'' # token (lexer_getToken (tl tokens_atc))) = None"
    by (simp add: table_atc_def lexer_getToken_def tokens_atc_def)
  have s0: "parse_step table_atc (assign_indices grammar_atc) record_call
       \<lparr>stack = [StateNumber 0], lexer = tokens_atc, user = []\<rparr> =
     Continue \<lparr>stack = [StateNumber 0, Token (lexer_getToken tokens_atc), StateNumber 1],
               lexer = tl tokens_atc, user = []\<rparr>"
    using parse_step_lookup_order [of table_atc
        "\<lparr>stack = [StateNumber 0], lexer = tokens_atc, user = []\<rparr>" "rows table_atc ! 0"
        "assign_indices grammar_atc" record_call] r0 t0
    by (simp add: table_atc_def lexer_getToken_def tokens_atc_def parse_action_def lexer_next_def)
  have s1: "parse_step table_atc (assign_indices grammar_atc) record_call
       \<lparr>stack = take 3 stack_atc, lexer = tl tokens_atc, user = []\<rparr> =
     Continue \<lparr>stack = take 3 stack_atc @ [Token (lexer_getToken (tl tokens_atc)), StateNumber 4],
               lexer = tl (tl tokens_atc), user = []\<rparr>"
    using parse_step_lookup_order [of table_atc
        "\<lparr>stack = take 3 stack_atc, lexer = tl tokens_atc, user = []\<rparr>" "rows table_atc ! 1"
        "assign_indices grammar_atc" record_call] r1 t1
    by (simp add: table_atc_def lexer_getToken_def tokens_atc_def parse_action_def lexer_next_def)
  from r0 t0 s0 r1 t1 n1 s1 show ?thesis by blast
qed



lemma js_splice_tail:
  "2 * k \<le> length xs \<Longrightarrow>
     js_splice xs (int (length xs) - 2 * int k) =
       (take (length xs - 2 * k) xs, drop (length xs - 2 * k) xs)"
proof -
  assume le: "2 * k \<le> length xs"
  then have e: "int (length xs) - 2 * int k = int (length xs - 2 * k)" by simp
  show ?thesis unfolding js_splice_def e by (simp add: Let_def min_def)
qed

lemma collect_terminals_tail:
  assumes "2 * length (rhs r) \<le> length xs"
  shows "collect_terminals r (drop (length xs - 2 * length (rhs r)) xs) =
     map (\<lambda>i. xs ! (length xs - 2 * length (rhs r) + 2 * i))
       (filter (\<lambda>i. item_type (rhs r ! i) = Terminal) [0 ..< length (rhs r)])"
proof -
  let ?k = "length (rhs r)"
  let ?d = "length xs - 2 * ?k"
  have len: "length (drop ?d xs) = 2 * ?k" using assms by simp
  have "map (\<lambda>i. drop ?d xs ! (i * 2)) (filter (\<lambda>i. item_type (rhs r ! i) = Terminal) [0 ..< ?k]) =
      map (\<lambda>i. xs ! (?d + 2 * i)) (filter (\<lambda>i. item_type (rhs r ! i) = Terminal) [0 ..< ?k])"
  proof (rule map_cong [OF refl])
    fix i assume "i \<in> set (filter (\<lambda>i. item_type (rhs r ! i) = Terminal) [0 ..< ?k])"
    then have "i < ?k" by simp
    then have "?d + i * 2 < length xs" using assms by simp
    then show "drop ?d xs ! (i * 2) = xs ! (?d + 2 * i)"
      by (simp add: mult.commute)
  qed
  then show ?thesis unfolding collect_terminals_def len by simp
qed

text \<open>
  A step whose action is a reduction by the rule \<open>r\<close>, on a stack that holds at least
  \<open>2 |rhs r|\<close> slots: the callback of \<open>r\<close> is called with the slots \<open>len - 2k + 2i\<close> of the
  stack for the right-hand-side positions \<open>i\<close> that are terminals, and the step goes on
  with the stack without its last \<open>2 |rhs r|\<close> slots.
\<close>

lemma parse_step_reduce:
  assumes "table_row tbl (stack ps) = Inr row"
    and "find_entry row (lexer_getToken (lexer ps)) = Some entry"
    and "\<not> shift entry"
    and "0 \<le> entry_value entry" and "nat (entry_value entry) < length rs"
    and "r = rs ! nat (entry_value entry)"
    and "2 * length (rhs r) \<le> length (stack ps)"
  shows "parse_step tbl rs cbs ps =
     (case (if callBackId r = [] then Inr (user ps)
            else if \<not> js_in (callBackId r) (registered cbs)
            then Inl (UnimplementedCallback (callBackId r))
            else (case registered cbs (callBackId r) of
                    Some f \<Rightarrow>
                      f (map (\<lambda>i. stack ps ! (length (stack ps) - 2 * length (rhs r) + 2 * i))
                           (filter (\<lambda>i. item_type (rhs r ! i) = Terminal) [0 ..< length (rhs r)]))
                        (user ps)
                  | None \<Rightarrow>
                      inherited cbs (callBackId r)
                        (map (\<lambda>i. stack ps ! (length (stack ps) - 2 * length (rhs r) + 2 * i))
                           (filter (\<lambda>i. item_type (rhs r ! i) = Terminal) [0 ..< length (rhs r)]))
                        (user ps))) of
        Inl e \<Rightarrow> Failed e
      | Inr u \<Rightarrow>
          reduce_goto tbl r (entry_value entry = 0)
            (ps\<lparr>stack := take (length (stack ps) - 2 * length (rhs r)) (stack ps), user := u\<rparr>))"
proof -
  have step: "parse_step tbl rs cbs ps = parse_reduce tbl rs cbs entry ps"
    using assms(1-3) by (simp add: parse_step_def parse_action_def)
  have sp: "js_splice (stack ps) (int (length (stack ps)) - 2 * int (length (rhs r))) =
      (take (length (stack ps) - 2 * length (rhs r)) (stack ps),
       drop (length (stack ps) - 2 * length (rhs r)) (stack ps))"
    by (rule js_splice_tail [OF assms(7)])
  have ct: "collect_terminals r (drop (length (stack ps) - 2 * length (rhs r)) (stack ps)) =
      map (\<lambda>i. stack ps ! (length (stack ps) - 2 * length (rhs r) + 2 * i))
        (filter (\<lambda>i. item_type (rhs r ! i) = Terminal) [0 ..< length (rhs r)])"
    by (rule collect_terminals_tail [OF assms(7)])
  have idx: "\<not> (entry_value entry < 0 \<or> nat (entry_value entry) \<ge> length rs)"
    using assms(4,5) by simp
  show ?thesis
    unfolding step parse_reduce_def if_not_P [OF idx] assms(6) [symmetric] sp fst_conv snd_conv
      run_callback_def ct
    by (simp split: option.splits)
qed

text \<open>
  Claim C5, amended. A step that reduces the root rule (the action is a reduce entry with
  the value 0) never continues the loop. When the root rule names no callback, or names
  a registered callback that returns, the step raises \<^verbatim>\<open>expected END\<close> if the token
  source is not at its end and finishes the parse otherwise. When the root rule names a
  callback that \<^verbatim>\<open>in\<close> does not find in \<^verbatim>\<open>callBacks\<close> (it is not registered, and it is not
  the name of a member that every object inherits), the step raises the
  unimplemented-callback error, also at the end of the input.
\<close>

theorem root_reduce_stops:
  assumes "table_row tbl (stack ps) = Inr row"
    and "find_entry row (lexer_getToken (lexer ps)) = Some entry"
    and "\<not> shift entry" and "entry_value entry = 0"
  shows "(\<forall>ps'. parse_step tbl rs cbs ps \<noteq> Continue ps') \<and>
     (0 < length rs \<and> callBackId (rs ! 0) = [] \<longrightarrow>
        parse_step tbl rs cbs ps =
          (if lexer_isEND (lexer ps)
           then Finished (ps\<lparr>stack := fst (js_splice (stack ps)
                   (int (length (stack ps)) - 2 * int (length (rhs (rs ! 0)))))\<rparr>)
           else Failed ExpectedEND)) \<and>
     (\<forall>f u. 0 < length rs \<and> callBackId (rs ! 0) \<noteq> [] \<and>
        registered cbs (callBackId (rs ! 0)) = Some f \<and>
        f (collect_terminals (rs ! 0) (snd (js_splice (stack ps)
             (int (length (stack ps)) - 2 * int (length (rhs (rs ! 0))))))) (user ps) = Inr u \<longrightarrow>
        parse_step tbl rs cbs ps =
          (if lexer_isEND (lexer ps)
           then Finished (ps\<lparr>stack := fst (js_splice (stack ps)
                   (int (length (stack ps)) - 2 * int (length (rhs (rs ! 0))))), user := u\<rparr>)
           else Failed ExpectedEND)) \<and>
     (0 < length rs \<and> callBackId (rs ! 0) \<noteq> [] \<and>
      \<not> js_in (callBackId (rs ! 0)) (registered cbs) \<longrightarrow>
        parse_step tbl rs cbs ps = Failed (UnimplementedCallback (callBackId (rs ! 0))))"
proof -
  have step: "parse_step tbl rs cbs ps = parse_reduce tbl rs cbs entry ps"
    using assms(1-3) by (simp add: parse_step_def parse_action_def)
  have a: "parse_step tbl rs cbs ps \<noteq> Continue ps'" for ps'
    unfolding step parse_reduce_def reduce_goto_def using assms(4)
    by (simp split: sum.splits)
  have b: "parse_step tbl rs cbs ps =
          (if lexer_isEND (lexer ps)
           then Finished (ps\<lparr>stack := fst (js_splice (stack ps)
                   (int (length (stack ps)) - 2 * int (length (rhs (rs ! 0)))))\<rparr>)
           else Failed ExpectedEND)"
    if "0 < length rs \<and> callBackId (rs ! 0) = []"
    unfolding step parse_reduce_def reduce_goto_def run_callback_def using assms(4) that
    by simp
  have c: "parse_step tbl rs cbs ps =
          (if lexer_isEND (lexer ps)
           then Finished (ps\<lparr>stack := fst (js_splice (stack ps)
                   (int (length (stack ps)) - 2 * int (length (rhs (rs ! 0))))), user := u\<rparr>)
           else Failed ExpectedEND)"
    if "0 < length rs \<and> callBackId (rs ! 0) \<noteq> [] \<and>
        registered cbs (callBackId (rs ! 0)) = Some f \<and>
        f (collect_terminals (rs ! 0) (snd (js_splice (stack ps)
             (int (length (stack ps)) - 2 * int (length (rhs (rs ! 0))))))) (user ps) = Inr u"
    for f u
    unfolding step parse_reduce_def reduce_goto_def run_callback_def using assms(4) that
    by (simp add: js_in_def)
  have d: "parse_step tbl rs cbs ps = Failed (UnimplementedCallback (callBackId (rs ! 0)))"
    if "0 < length rs \<and> callBackId (rs ! 0) \<noteq> [] \<and>
        \<not> js_in (callBackId (rs ! 0)) (registered cbs)"
    unfolding step parse_reduce_def reduce_goto_def run_callback_def using assms(4) that
    by simp
  from a b c d show ?thesis by blast
qed



theorem root_reduce_stops_witness:
  "table_row table_paren stack_paren = Inr (rows table_paren ! 7) \<and>
   find_entry (rows table_paren ! 7)
       (lexer_getToken [\<lparr>token_type = TK_DEL, token = '')'', token_value = 0\<rparr>]) =
     Some \<lparr>shift = False, entry_value = 0\<rparr> \<and>
   callBackId (assign_indices grammar_paren ! 0) = [] \<and>
   \<not> lexer_isEND [\<lparr>token_type = TK_DEL, token = '')'', token_value = 0\<rparr>] \<and>
   parse_step table_paren (assign_indices grammar_paren) no_callbacks
       \<lparr>stack = stack_paren,
        lexer = [\<lparr>token_type = TK_DEL, token = '')'', token_value = 0\<rparr>], user = ()\<rparr> =
     Failed ExpectedEND \<and>
   table_row table_paren (take 6 stack_paren @ [StateNumber 3]) = Inr (rows table_paren ! 3) \<and>
   find_entry (rows table_paren ! 3) (lexer_getToken []) = Some \<lparr>shift = False, entry_value = 0\<rparr> \<and>
   lexer_isEND [] \<and>
   parse_step table_paren (assign_indices grammar_paren) no_callbacks
       \<lparr>stack = take 6 stack_paren @ [StateNumber 3], lexer = [], user = ()\<rparr> =
     Finished \<lparr>stack = [StateNumber 0], lexer = [], user = ()\<rparr>"
proof -
  let ?tk = "\<lparr>token_type = TK_DEL, token = '')'', token_value = 0\<rparr>"
  let ?ps1 = "\<lparr>stack = stack_paren, lexer = [?tk], user = ()\<rparr>"
  let ?ps2 = "\<lparr>stack = take 6 stack_paren @ [StateNumber 3], lexer = [], user = ()\<rparr>"
  let ?e = "\<lparr>shift = False, entry_value = 0\<rparr>"
  let ?cbs = "no_callbacks :: unit callbacks"
  have row1: "table_row table_paren (stack ?ps1) = Inr (rows table_paren ! 7)"
    by (simp add: table_row_def table_paren_def stack_paren_def)
  have ent1: "find_entry (rows table_paren ! 7) (lexer_getToken (lexer ?ps1)) = Some ?e"
    by (simp add: find_entry_def table_paren_def lexer_getToken_def)
  have row2: "table_row table_paren (stack ?ps2) = Inr (rows table_paren ! 3)"
    by (simp add: table_row_def table_paren_def stack_paren_def)
  have ent2: "find_entry (rows table_paren ! 3) (lexer_getToken (lexer ?ps2)) = Some ?e"
    by (simp add: find_entry_def table_paren_def lexer_getToken_def)
  have r: "assign_indices grammar_paren ! 0 =
      \<lparr>rule_index = 0, lhs = ''s'',
       rhs = [\<lparr>item_type = Terminal, item_value = '':(''\<rparr>,
              \<lparr>item_type = NonTerminal, item_value = ''s''\<rparr>,
              \<lparr>item_type = Terminal, item_value = '':)''\<rparr>],
       callBackId = []\<rparr>"
    by (simp add: assign_indices_def grammar_paren_def new_LR1_Rule_def addTerminalItem_def
        addNonTerminalItem_def)
  have len: "0 < length (assign_indices grammar_paren)"
    by (simp add: assign_indices_def grammar_paren_def)
  have cb: "callBackId (assign_indices grammar_paren ! 0) = []" by (simp add: r)
  have e1: "\<not> lexer_isEND [?tk]" by (simp add: lexer_isEND_def lexer_getToken_def)
  have e2: "lexer_isEND []" by (simp add: lexer_isEND_def lexer_getToken_def)
  have s1: "parse_step table_paren (assign_indices grammar_paren) ?cbs ?ps1 = Failed ExpectedEND"
    using root_reduce_stops [OF row1 ent1, of "assign_indices grammar_paren" ?cbs] len cb e1
    by simp
  have s2: "parse_step table_paren (assign_indices grammar_paren) ?cbs ?ps2 =
      Finished \<lparr>stack = [StateNumber 0], lexer = [], user = ()\<rparr>"
    using root_reduce_stops [OF row2 ent2, of "assign_indices grammar_paren" ?cbs] len cb e2
    by (simp add: r js_splice_def stack_paren_def)
  from row1 ent1 cb e1 s1 row2 ent2 e2 s2 show ?thesis by simp
qed

text \<open>
  Claim C5 as stated fails when the root rule names a callback that is not registered:
  the parse of \<^verbatim>\<open>a foo c\<close> with the grammar \<^verbatim>\<open>s = "a" t "c" -> cb; t = ID;\<close> and no
  callback reduces the root rule at the end of the input, and ends with the
  unimplemented-callback error instead of the success.
\<close>

theorem root_reduce_unregistered_callback:
  "map_option fst (calcTable (new_LR1\<lparr>rules := grammar_atc\<rparr>)) = Some (Inr table_atc) \<and>
   Option.bind (calcTable (new_LR1\<lparr>rules := grammar_atc\<rparr>))
     (\<lambda>r. parse (snd r) no_callbacks tokens_atc ()) =
     Some (Failed (UnimplementedCallback ''cb'')) \<and>
   find_entry (rows table_atc ! 3) (lexer_getToken []) = Some \<lparr>shift = False, entry_value = 0\<rparr> \<and>
   lexer_isEND [] \<and>
   parse_step table_atc (assign_indices grammar_atc) no_callbacks
       \<lparr>stack = stack_atc, lexer = [], user = ()\<rparr> =
     Failed (UnimplementedCallback ''cb'')"
  by code_simp


text \<open>
  The grammar \<^verbatim>\<open>s = "a" -> toString;\<close> with no callback registered:
  \<^verbatim>\<open>'toString' in this.callBacks\<close> holds, the inherited member is called, and the parse of
  \<^verbatim>\<open>a\<close> succeeds.
\<close>

lemma parse_inherited_callback:
  "Option.bind (calcTable (new_LR1\<lparr>rules :=
       [(addTerminalItem (new_LR1_Rule ''s'') '':a'')\<lparr>callBackId := ''toString''\<rparr>]\<rparr>))
     (\<lambda>r. parse (snd r) no_callbacks
        [\<lparr>token_type = TK_ID, token = ''a'', token_value = 0\<rparr>] ()) =
   Some (Finished \<lparr>stack = [StateNumber 0], lexer = [], user = ()\<rparr>)"
  by code_simp


section \<open>Reductions after a second calcTable\<close>

text \<open>
  \<^verbatim>\<open>parseRules\<close> starts with \<^verbatim>\<open>this.rules = []\<close> and leaves the other fields alone, and
  \<open>calcTable\<close> never empties \<open>this.states\<close>. The two grammars \<^verbatim>\<open>s = "a";\<close> and
  \<^verbatim>\<open>s = "a" "b" "c" -> cb;\<close>, given to one object one after the other.
\<close>

definition grammar_a :: "LR1_Rule list" where
  "grammar_a = [addTerminalItem (new_LR1_Rule ''s'') '':a'']"

definition grammar_abc :: "LR1_Rule list" where
  "grammar_abc =
     [(addTerminalItem (addTerminalItem (addTerminalItem (new_LR1_Rule ''s'') '':a'') '':b'') '':c'')
        \<lparr>callBackId := ''cb''\<rparr>]"

text \<open>
  The object after \<^verbatim>\<open>parseRules('s = "a";')\<close>, \<^verbatim>\<open>calcTable()\<close>,
  \<^verbatim>\<open>parseRules('s = "a" "b" "c" -> cb;')\<close> and \<^verbatim>\<open>calcTable()\<close>, with the result of the second
  \<open>calcTable\<close>.
\<close>

definition calcTable_twice :: "((failure + LR1_Table) \<times> LR1) option" where
  "calcTable_twice =
     Option.bind (calcTable (new_LR1\<lparr>rules := grammar_a\<rparr>))
       (\<lambda>r1. calcTable ((snd r1)\<lparr>rules := grammar_abc\<rparr>))"

text \<open>
  Claim C6 fails in the program. After the second \<open>calcTable\<close> the admitted states are
  the two states of the first grammar followed by the four of the second, so the rows 0
  and 1 of the new table are those of the first grammar, while \<open>rules[0]\<close> is the rule of
  the second. The parse of \<^verbatim>\<open>a\<close> shifts \<^verbatim>\<open>a\<close> and then, in the state 1, reduces the rule 0:
  the stack holds 3 slots, the rule has 3 symbols, and the splice removes the 3 slots that
  are there instead of 6. The callback \<open>cb\<close> is called with the list that holds the state
  number 0, the slot at the place of the first terminal, instead of three tokens. (The
  rules of the two grammars differ as records, so that records identify the rule objects
  in this run.)
\<close>

theorem reduce_after_second_calcTable:
  "map_option fst calcTable_twice =
     Some (Inr \<lparr>rows =
        [\<lparr>actionEntries = [('':a'', \<lparr>shift = True, entry_value = 1\<rparr>)], gotoEntries = []\<rparr>,
         \<lparr>actionEntries = [(''END'', \<lparr>shift = False, entry_value = 0\<rparr>)], gotoEntries = []\<rparr>,
         \<lparr>actionEntries = [('':a'', \<lparr>shift = True, entry_value = 3\<rparr>)], gotoEntries = []\<rparr>,
         \<lparr>actionEntries = [('':b'', \<lparr>shift = True, entry_value = 4\<rparr>)], gotoEntries = []\<rparr>,
         \<lparr>actionEntries = [('':c'', \<lparr>shift = True, entry_value = 5\<rparr>)], gotoEntries = []\<rparr>,
         \<lparr>actionEntries = [(''END'', \<lparr>shift = False, entry_value = 0\<rparr>)], gotoEntries = []\<rparr>]\<rparr>) \<and>
   map_option (\<lambda>r. map rhs (rules (snd r))) calcTable_twice = Some (map rhs grammar_abc) \<and>
   Option.bind calcTable_twice
     (\<lambda>r. Some (parse_step (the (table (snd r))) (rules (snd r)) record_call
        \<lparr>stack = [StateNumber 0], lexer = [\<lparr>token_type = TK_ID, token = ''a'', token_value = 0\<rparr>],
         user = []\<rparr>)) =
     Some (Continue
        \<lparr>stack = [StateNumber 0, Token \<lparr>token_type = TK_ID, token = ''a'', token_value = 0\<rparr>,
                  StateNumber 1],
         lexer = [], user = []\<rparr>) \<and>
   Option.bind calcTable_twice
     (\<lambda>r. Some (parse_step (the (table (snd r))) (rules (snd r)) record_call
        \<lparr>stack = [StateNumber 0, Token \<lparr>token_type = TK_ID, token = ''a'', token_value = 0\<rparr>,
                  StateNumber 1],
         lexer = [], user = []\<rparr>)) =
     Some (Finished \<lparr>stack = [], lexer = [], user = [[StateNumber 0]]\<rparr>) \<and>
   Option.bind calcTable_twice
     (\<lambda>r. parse (snd r) record_call
        [\<lparr>token_type = TK_ID, token = ''a'', token_value = 0\<rparr>] []) =
     Some (Finished \<lparr>stack = [], lexer = [], user = [[StateNumber 0]]\<rparr>)"
  by code_simp


section \<open>Uniqueness of the admitted states\<close>

text \<open>
  \<open>la_wf\<close>: the lookahead sets of the items are duplicate-free, as every \<^verbatim>\<open>Set\<close> is.
  \<open>state_wf\<close>: an item set with pairwise distinct cores and such lookahead sets.
\<close>


definition la_wf :: "LR1_StateItem list \<Rightarrow> bool" where
  "la_wf items = list_all (\<lambda>i. distinct (lookAheadSet i)) items"

definition state_wf :: "LR1_State \<Rightarrow> bool" where
  "state_wf st = (core_unique (itemSet st) \<and> la_wf (itemSet st))"

lemma addItem_items_la_wf:
  "la_wf items \<Longrightarrow> distinct (lookAheadSet newItem) \<Longrightarrow>
     la_wf (snd (addItem_items items newItem))"
  by (induction items) (auto simp: la_wf_def distinct_new_Set)

lemma fold_addItem_la_wf:
  "la_wf acc \<Longrightarrow> list_all (\<lambda>i. distinct (lookAheadSet i)) new \<Longrightarrow>
     la_wf (fold (\<lambda>item acc. snd (addItem_items acc item)) new acc)"
  by (induction new arbitrary: acc) (auto simp: addItem_items_la_wf)

lemma distinct_closure_lookAhead: "closure_lookAhead fm item = Inr la \<Longrightarrow> distinct la"
  by (auto simp: closure_lookAhead_def Let_def distinct_new_Set set_add_def
      split: if_splits option.splits)

lemma closure_newItems_la:
  "closure_newItems rs fm item = Inr new \<Longrightarrow> list_all (\<lambda>i. distinct (lookAheadSet i)) new"
  by (auto simp: closure_newItems_def list_all_iff distinct_closure_lookAhead
      split: if_splits sum.splits)

lemma closure_collect_la:
  "closure_collect rs fm items = Inr new \<Longrightarrow> list_all (\<lambda>i. distinct (lookAheadSet i)) new"
proof (induction items arbitrary: new)
  case Nil
  then show ?case by simp
next
  case (Cons item items)
  from Cons.prems obtain n1 n2 where n1: "closure_newItems rs fm item = Inr n1"
    and n2: "closure_collect rs fm items = Inr n2" and new: "new = n1 @ n2"
    by (auto split: sum.splits)
  from closure_newItems_la [OF n1] Cons.IH [OF n2] show ?case unfolding new by simp
qed

lemma closure_pass_la_wf:
  "closure_pass rs fm items = Inr items' \<Longrightarrow> la_wf items \<Longrightarrow> la_wf items'"
  by (auto simp: closure_pass_def fold_addItem_la_wf closure_collect_la split: sum.splits)

lemma closure_loop_la_wf:
  assumes "closure_loop rs fm items = Some (Inr items')"
  shows "la_wf items \<longrightarrow> la_wf items'"
  using closure_loop_induct [OF assms, of la_wf] closure_pass_la_wf
  by blast

lemma successor_seeds_wf:
  "successor_seeds ty v items si = Inr si' \<Longrightarrow> state_wf si \<Longrightarrow> state_wf si'"
proof (induction items arbitrary: si)
  case Nil
  then show ?case by simp
next
  case (Cons item items)
  show ?case
  proof (cases "dot_before ty v item")
    case False
    then have "successor_seeds ty v (item # items) si = successor_seeds ty v items si"
      unfolding dot_before_def by (simp del: de_Morgan_conj)
    with Cons show ?thesis by simp
  next
    case True
    then have step: "successor_seeds ty v (item # items) si =
        (if fst (addItem si (advance item))
         then successor_seeds ty v items (snd (addItem si (advance item)))
         else Inl ProcessExit)"
      unfolding dot_before_def by simp
    with Cons.prems(1) have
      rest: "successor_seeds ty v items (snd (addItem si (advance item))) = Inr si'"
      by (simp split: if_splits)
    have d: "distinct (lookAheadSet (advance item))"
      by (simp add: advance_def clone_def distinct_new_Set)
    have "state_wf (snd (addItem si (advance item)))"
      using Cons.prems(2) d
      by (simp add: state_wf_def addItem_def addItem_items_core_unique addItem_items_la_wf)
    from Cons.IH [OF rest this] show ?thesis .
  qed
qed

lemma successor_seeds_other_fields:
  "successor_seeds ty v items si = Inr si' \<Longrightarrow>
     state_index si' = state_index si \<and> outEdges si' = outEdges si \<and> inEdges si' = inEdges si"
proof (induction items arbitrary: si)
  case Nil
  then show ?case by simp
next
  case (Cons item items)
  show ?case
  proof (cases "dot_before ty v item")
    case False
    then have "successor_seeds ty v (item # items) si = successor_seeds ty v items si"
      unfolding dot_before_def by (simp del: de_Morgan_conj)
    with Cons show ?thesis by simp
  next
    case True
    then have step: "successor_seeds ty v (item # items) si =
        (if fst (addItem si (advance item))
         then successor_seeds ty v items (snd (addItem si (advance item)))
         else Inl ProcessExit)"
      unfolding dot_before_def by simp
    with Cons.prems(1) have
      rest: "successor_seeds ty v items (snd (addItem si (advance item))) = Inr si'"
      by (simp split: if_splits)
    from Cons.IH [OF rest] show ?thesis by (simp add: addItem_def)
  qed
qed

lemma make_successors_frame:
  "make_successors ty vs q lr s = Inr (lr', s') \<Longrightarrow> q < length (state_store lr) \<Longrightarrow>
     states lr' = states lr \<and> rules lr' = rules lr \<and> first lr' = first lr \<and>
     table lr' = table lr \<and>
     length (state_store lr') = length (state_store lr) + length vs \<and>
     s' = s @ [length (state_store lr) ..< length (state_store lr')] \<and>
     (\<forall>a < length (state_store lr).
        itemSet (state_store lr' ! a) = itemSet (state_store lr ! a) \<and>
        state_index (state_store lr' ! a) = state_index (state_store lr ! a)) \<and>
     (\<forall>a. length (state_store lr) \<le> a \<and> a < length (state_store lr') \<longrightarrow>
        state_wf (state_store lr' ! a))"
proof (induction vs arbitrary: lr s)
  case Nil
  then show ?case by auto
next
  case (Cons v vs)
  let ?e = "length (edge_store lr)"
  let ?n = "length (state_store lr)"
  from Cons.prems(1) obtain si where
    seeds: "successor_seeds ty v (itemSet (state_store lr ! q))
              (new_LR1_State\<lparr>inEdges := [?e]\<rparr>) = Inr si"
    by (auto split: sum.splits)
  let ?lr = "lr\<lparr>state_store :=
                   (state_store lr)[q := (state_store lr ! q)
                      \<lparr>outEdges := outEdges (state_store lr ! q) @ [?e]\<rparr>] @ [si],
                 edge_store := edge_store lr @
                   [\<lparr>src = q, dest = ?n, label = \<lparr>item_type = ty, item_value = v\<rparr>\<rparr>]\<rparr>"
  from Cons.prems(1) seeds have
    rest: "make_successors ty vs q ?lr (s @ [?n]) = Inr (lr', s')"
    by simp
  have q': "q < length (state_store ?lr)" using Cons.prems(2) by simp
  note ih = Cons.IH [OF rest q']
  have wf0: "state_wf (new_LR1_State\<lparr>inEdges := [?e]\<rparr>)"
    by (simp add: state_wf_def new_LR1_State_def core_unique_def la_wf_def)
  have wfsi: "state_wf si" by (rule successor_seeds_wf [OF seeds wf0])
  have len1: "length (state_store ?lr) = Suc ?n" by simp
  have old: "itemSet (state_store ?lr ! a) = itemSet (state_store lr ! a) \<and>
      state_index (state_store ?lr ! a) = state_index (state_store lr ! a)"
    if "a < ?n" for a
    using that by (cases "a = q") (simp_all add: nth_append)
  have new: "state_store ?lr ! ?n = si" by (simp add: nth_append)
  from ih have st: "states lr' = states lr" "rules lr' = rules lr" "first lr' = first lr"
      "table lr' = table lr"
    by simp_all
  from ih have "length (state_store lr') = length (state_store ?lr) + length vs" by blast
  then have len: "length (state_store lr') = ?n + length (v # vs)" unfolding len1 by simp
  from ih have "s' = (s @ [?n]) @ [length (state_store ?lr) ..< length (state_store lr')]"
    by blast
  then have s1: "s' = (s @ [?n]) @ [Suc ?n ..< length (state_store lr')]"
    unfolding len1 .
  from len have lt: "?n < length (state_store lr')" by simp
  have s': "s' = s @ [?n ..< length (state_store lr')]"
    unfolding s1 upt_conv_Cons [OF lt] by simp
  have frame: "itemSet (state_store lr' ! a) = itemSet (state_store lr ! a) \<and>
      state_index (state_store lr' ! a) = state_index (state_store lr ! a)"
    if "a < ?n" for a
  proof -
    from that len1 have "a < length (state_store ?lr)" by simp
    with ih have "itemSet (state_store lr' ! a) = itemSet (state_store ?lr ! a) \<and>
      state_index (state_store lr' ! a) = state_index (state_store ?lr ! a)" by blast
    with old [OF that] show ?thesis by simp
  qed
  have fresh: "state_wf (state_store lr' ! a)"
    if "?n \<le> a \<and> a < length (state_store lr')" for a
  proof (cases "a = ?n")
    case True
    from len1 have "?n < length (state_store ?lr)" by simp
    with ih have "itemSet (state_store lr' ! ?n) = itemSet (state_store ?lr ! ?n)" by blast
    with new wfsi True show ?thesis by (simp add: state_wf_def)
  next
    case False
    with that len1 have "length (state_store ?lr) \<le> a \<and> a < length (state_store lr')" by simp
    with ih show ?thesis by blast
  qed
  from st len s' frame fresh show ?case by blast
qed



lemma calcItemSet_frame:
  assumes run: "calcItemSet lr q = Some (Inr (lr', R))"
    and q: "q < length (state_store lr)"
  shows "states lr' = states lr \<and> rules lr' = rules lr \<and> first lr' = first lr \<and>
     table lr' = table lr \<and>
     length (state_store lr) \<le> length (state_store lr') \<and>
     R = [length (state_store lr) ..< length (state_store lr')] \<and>
     (\<forall>a < length (state_store lr). a \<noteq> q \<longrightarrow>
        itemSet (state_store lr' ! a) = itemSet (state_store lr ! a)) \<and>
     (state_wf (state_store lr ! q) \<longrightarrow> state_wf (state_store lr' ! q)) \<and>
     (\<forall>a. length (state_store lr) \<le> a \<and> a < length (state_store lr') \<longrightarrow>
        state_wf (state_store lr' ! a))"
proof -
  from run obtain items where
    cl: "closure_loop (rules lr) (first lr) (itemSet (state_store lr ! q)) = Some (Inr items)"
    by (auto simp: calcItemSet_def split: option.splits sum.splits)
  let ?lr0 = "lr\<lparr>state_store := (state_store lr)[q := (state_store lr ! q)\<lparr>itemSet := items\<rparr>]\<rparr>"
  let ?n = "length (state_store lr)"
  from run cl obtain lr1 s1 where
    m1: "make_successors Terminal (fst (successor_symbols items ([], []))) q ?lr0 [] = Inr (lr1, s1)"
    and m2: "make_successors NonTerminal (snd (successor_symbols items ([], []))) q lr1 s1 = Inr (lr', R)"
    by (auto simp: calcItemSet_def split: sum.splits)
  have q0: "q < length (state_store ?lr0)" using q by simp
  note f1 = make_successors_frame [OF m1 q0]
  from f1 have len1: "?n \<le> length (state_store lr1)" by simp
  with q have q1: "q < length (state_store lr1)" by simp
  note f2 = make_successors_frame [OF m2 q1]
  from f1 have s1: "s1 = [?n ..< length (state_store lr1)]" by simp
  from f2 have len2: "length (state_store lr1) \<le> length (state_store lr')" by simp
  from f2 s1 have "R = [?n ..< length (state_store lr1)] @
      [length (state_store lr1) ..< length (state_store lr')]" by simp
  then have R: "R = [?n ..< length (state_store lr')]"
    using len1 len2 by (metis le_Suc_ex upt_add_eq_append)
  from f1 f2 have fields: "states lr' = states lr" "rules lr' = rules lr"
      "first lr' = first lr" "table lr' = table lr"
    by simp_all
  have it: "itemSet (state_store lr' ! a) = itemSet (state_store ?lr0 ! a)" if "a < ?n" for a
  proof -
    from that have a0: "a < length (state_store ?lr0)" by simp
    from that len1 have a1: "a < length (state_store lr1)" by simp
    from f1 a0 have "itemSet (state_store lr1 ! a) = itemSet (state_store ?lr0 ! a)" by blast
    moreover from f2 a1 have "itemSet (state_store lr' ! a) = itemSet (state_store lr1 ! a)"
      by blast
    ultimately show ?thesis by simp
  qed
  have other: "itemSet (state_store lr' ! a) = itemSet (state_store lr ! a)"
    if "a < ?n" "a \<noteq> q" for a
    using it [OF that(1)] that by simp
  have self: "state_wf (state_store lr' ! q)" if w: "state_wf (state_store lr ! q)"
  proof -
    from closure_loop_core_unique [OF cl] closure_loop_la_wf [OF cl] w
    have "core_unique items \<and> la_wf items" by (simp add: state_wf_def)
    moreover have "itemSet (state_store lr' ! q) = items" using it [OF q] q by simp
    ultimately show ?thesis by (simp add: state_wf_def)
  qed
  have fresh: "state_wf (state_store lr' ! a)"
    if "?n \<le> a \<and> a < length (state_store lr')" for a
  proof (cases "a < length (state_store lr1)")
    case True
    with that f1 have "state_wf (state_store lr1 ! a)" by simp
    moreover from f2 True have "itemSet (state_store lr' ! a) = itemSet (state_store lr1 ! a)"
      by blast
    ultimately show ?thesis by (simp add: state_wf_def)
  next
    case False
    with that f2 show ?thesis by simp
  qed
  from fields len1 len2 R other self fresh show ?thesis by auto
qed

lemma redirect_inEdges_frame:
  "states (redirect_inEdges us s lr) = states lr \<and>
   length (state_store (redirect_inEdges us s lr)) = length (state_store lr) \<and>
   (\<forall>a. itemSet (state_store (redirect_inEdges us s lr) ! a) = itemSet (state_store lr ! a))"
proof (induction us arbitrary: lr)
  case Nil
  then show ?case by simp
next
  case (Cons u us)
  let ?es = "(edge_store lr)[u := (edge_store lr ! u)\<lparr>dest := s\<rparr>]"
  let ?lr1 = "lr\<lparr>edge_store := ?es\<rparr>"
  let ?lr2 = "lr\<lparr>edge_store := ?es,
                state_store := (state_store lr)[s := (state_store lr ! s)
                   \<lparr>inEdges := inEdges (state_store lr ! s) @ [u]\<rparr>]\<rparr>"
  have it2: "itemSet (state_store ?lr2 ! a) = itemSet (state_store lr ! a)" for a
    by (cases "a = s"; cases "s < length (state_store lr)") (simp_all add: list_update_beyond)
  show ?case
  proof (cases "list_ex (\<lambda>v. edge_same (?es ! u) (?es ! v)) (inEdges (state_store lr ! s))")
    case True
    then have "redirect_inEdges (u # us) s lr = redirect_inEdges us s ?lr1" by simp
    with Cons.IH [of ?lr1] show ?thesis by simp
  next
    case False
    then have "redirect_inEdges (u # us) s lr = redirect_inEdges us s ?lr2" by simp
    with Cons.IH [of ?lr2] it2 show ?thesis by simp
  qed
qed

lemma addState_find_None:
  "addState_find ss sNew lr = None \<Longrightarrow>
     \<forall>s \<in> set ss. \<not> state_equal (state_store lr ! s) (state_store lr ! sNew)"
  by (induction ss) (auto split: if_splits)

lemma addState_find_Some:
  "addState_find ss sNew lr = Some s \<Longrightarrow>
     s \<in> set ss \<and> state_equal (state_store lr ! s) (state_store lr ! sNew)"
  by (induction ss) (auto split: if_splits)

lemma addState_frame:
  "length (state_store (snd (addState lr q))) = length (state_store lr) \<and>
   (\<forall>a. itemSet (state_store (snd (addState lr q)) ! a) = itemSet (state_store lr ! a)) \<and>
   (fst (addState lr q) \<longrightarrow>
      states (snd (addState lr q)) = states lr @ [q] \<and>
      (\<forall>s \<in> set (states lr). \<not> state_equal (state_store lr ! s) (state_store lr ! q))) \<and>
   (\<not> fst (addState lr q) \<longrightarrow>
      states (snd (addState lr q)) = states lr \<and>
      (\<exists>s \<in> set (states lr). state_equal (state_store lr ! s) (state_store lr ! q)))"
proof (cases "addState_find (states lr) q lr")
  case None
  have it: "itemSet (((state_store lr)[q := (state_store lr ! q)
                   \<lparr>state_index := int (length (states lr))\<rparr>]) ! a) = itemSet (state_store lr ! a)" for a
    by (cases "a = q"; cases "q < length (state_store lr)") (simp_all add: list_update_beyond)
  from None addState_find_None [OF None] it show ?thesis
    by (simp add: addState_def)
next
  case (Some s)
  from Some addState_find_Some [OF Some]
    redirect_inEdges_frame [of "inEdges (state_store lr ! q)" s lr]
  show ?thesis by (auto simp: addState_def)
qed

lemma state_equal_itemSet:
  "itemSet a = itemSet a' \<Longrightarrow> itemSet b = itemSet b' \<Longrightarrow> state_equal a b = state_equal a' b'"
  by (simp add: state_equal_def)

lemma state_wf_itemSet: "itemSet a = itemSet a' \<Longrightarrow> state_wf a = state_wf a'"
  by (simp add: state_wf_def)



text \<open>
  The invariant of the worklist loop, for the object \<open>lr\<close> and the worklist \<open>Q\<close>: admitted
  and waiting states are in the store and well-formed, no state waits twice or is
  admitted while it waits, and no admitted state is equal to one admitted later.
\<close>

definition automaton_inv :: "LR1 \<Rightarrow> nat list \<Rightarrow> bool" where
  "automaton_inv lr Q =
     ((\<forall>s \<in> set (states lr) \<union> set Q.
         s < length (state_store lr) \<and> state_wf (state_store lr ! s)) \<and>
      distinct Q \<and> set Q \<inter> set (states lr) = {} \<and>
      (\<forall>i j. i < j \<and> j < length (states lr) \<longrightarrow>
         \<not> state_equal (state_store lr ! (states lr ! i)) (state_store lr ! (states lr ! j))))"

lemma automaton_inv_step:
  assumes inv: "automaton_inv lr Q" and ne: "Q \<noteq> []"
    and run: "calcItemSet lr (last Q) = Some (Inr (lr1, R))"
  shows "automaton_inv (snd (addState lr1 (last Q)))
           (if fst (addState lr1 (last Q)) then butlast Q @ R else butlast Q)"
proof -
  let ?q = "last Q"
  let ?n = "length (state_store lr)"
  let ?lr2 = "snd (addState lr1 ?q)"
  from ne have qQ: "?q \<in> set Q" by simp
  from inv have bnd: "\<And>s. s \<in> set (states lr) \<union> set Q \<Longrightarrow> s < ?n"
    and wf: "\<And>s. s \<in> set (states lr) \<union> set Q \<Longrightarrow> state_wf (state_store lr ! s)"
    and dQ: "distinct Q" and disj: "set Q \<inter> set (states lr) = {}"
    and pw: "\<And>i j. i < j \<Longrightarrow> j < length (states lr) \<Longrightarrow>
         \<not> state_equal (state_store lr ! (states lr ! i)) (state_store lr ! (states lr ! j))"
    unfolding automaton_inv_def by blast+
  from qQ bnd have qn: "?q < ?n" by blast
  from qQ disj have qs: "?q \<notin> set (states lr)" by blast
  note fr = calcItemSet_frame [OF run qn]
  from fr have st1: "states lr1 = states lr" by blast
  from fr have n1: "?n \<le> length (state_store lr1)" by blast
  from fr have R: "R = [?n ..< length (state_store lr1)]" by blast
  from fr have oth: "\<And>a. a < ?n \<Longrightarrow> a \<noteq> ?q \<Longrightarrow>
      itemSet (state_store lr1 ! a) = itemSet (state_store lr ! a)" by blast
  from fr wf qQ have wfq: "state_wf (state_store lr1 ! ?q)" by blast
  from fr have fresh: "\<And>a. ?n \<le> a \<Longrightarrow> a < length (state_store lr1) \<Longrightarrow>
      state_wf (state_store lr1 ! a)" by blast
  note af = addState_frame [of lr1 ?q]
  from af have len2: "length (state_store ?lr2) = length (state_store lr1)" by blast
  from af have it2: "\<And>a. itemSet (state_store ?lr2 ! a) = itemSet (state_store lr1 ! a)" by blast
  have wf1: "state_wf (state_store lr1 ! s)" if "s \<in> set (states lr) \<union> set Q" for s
  proof (cases "s = ?q")
    case True
    with wfq show ?thesis by simp
  next
    case False
    from oth [OF bnd [OF that] False] wf [OF that] show ?thesis
      by (simp add: state_wf_def)
  qed
  have wf2: "state_wf (state_store ?lr2 ! s)" if "state_wf (state_store lr1 ! s)" for s
    using that it2 [of s] by (simp add: state_wf_def)
  have eq2: "state_equal (state_store ?lr2 ! a) (state_store ?lr2 ! b) =
      state_equal (state_store lr1 ! a) (state_store lr1 ! b)" for a b
    by (rule state_equal_itemSet [OF it2 it2])
  have eq1: "state_equal (state_store lr1 ! a) (state_store lr1 ! b) =
      state_equal (state_store lr ! a) (state_store lr ! b)"
    if "a \<in> set (states lr)" "b \<in> set (states lr)" for a b
  proof -
    from that qs have "a \<noteq> ?q" "b \<noteq> ?q" by auto
    with that bnd show ?thesis
      by (intro state_equal_itemSet oth) auto
  qed
  have pw2: "\<not> state_equal (state_store ?lr2 ! (states lr ! i)) (state_store ?lr2 ! (states lr ! j))"
    if "i < j" "j < length (states lr)" for i j
  proof -
    from that have "states lr ! i \<in> set (states lr)" "states lr ! j \<in> set (states lr)" by simp_all
    from eq1 [OF this] eq2 pw [OF that] show ?thesis by simp
  qed
  have bQ: "set (butlast Q) \<subseteq> set Q" by (meson in_set_butlastD subsetI)
  have dbQ: "distinct (butlast Q)" using dQ by (rule distinct_butlast)
  have qbQ: "?q \<notin> set (butlast Q)"
    using dQ ne by (metis append_butlast_last_id distinct_append disjoint_iff list.set_intros(1))
  show ?thesis
  proof (cases "fst (addState lr1 ?q)")
    case False
    with af st1 have st2: "states ?lr2 = states lr" by simp
    have a: "s < length (state_store ?lr2) \<and> state_wf (state_store ?lr2 ! s)"
      if "s \<in> set (states ?lr2) \<union> set (butlast Q)" for s
    proof -
      from that st2 bQ have m: "s \<in> set (states lr) \<union> set Q" by auto
      from bnd [OF m] n1 len2 wf2 [OF wf1 [OF m]] show ?thesis by simp
    qed
    have b: "set (butlast Q) \<inter> set (states ?lr2) = {}" using disj bQ st2 by auto
    have c: "\<not> state_equal (state_store ?lr2 ! (states ?lr2 ! i)) (state_store ?lr2 ! (states ?lr2 ! j))"
      if "i < j \<and> j < length (states ?lr2)" for i j
      using pw2 [of i j] that st2 by simp
    from a dbQ b c False show ?thesis unfolding automaton_inv_def by simp
  next
    case True
    with af st1 have st2: "states ?lr2 = states lr @ [?q]"
      and neq: "\<And>s. s \<in> set (states lr) \<Longrightarrow>
          \<not> state_equal (state_store lr1 ! s) (state_store lr1 ! ?q)"
      by simp_all
    have Rb: "\<And>a. a \<in> set R \<Longrightarrow> ?n \<le> a \<and> a < length (state_store lr1)"
      unfolding R by simp
    have a: "s < length (state_store ?lr2) \<and> state_wf (state_store ?lr2 ! s)"
      if "s \<in> set (states ?lr2) \<union> set (butlast Q @ R)" for s
    proof (cases "s \<in> set R")
      case True
      from Rb [OF True] fresh len2 wf2 show ?thesis by simp
    next
      case False
      with that st2 bQ qQ have m: "s \<in> set (states lr) \<union> set Q" by auto
      from bnd [OF m] n1 len2 wf2 [OF wf1 [OF m]] show ?thesis by simp
    qed
    have dR: "distinct R" unfolding R by simp
    have bR: "set (butlast Q) \<inter> set R = {}"
    proof -
      have "s < ?n" if "s \<in> set (butlast Q)" for s using that bQ bnd by blast
      with Rb show ?thesis by fastforce
    qed
    have d: "distinct (butlast Q @ R)" using dbQ dR bR by simp
    have b: "set (butlast Q @ R) \<inter> set (states ?lr2) = {}"
    proof -
      have "s < ?n" if "s \<in> set (states ?lr2)" for s
        using that st2 bnd qQ by auto
      with Rb have "set R \<inter> set (states ?lr2) = {}" by fastforce
      moreover have "set (butlast Q) \<inter> set (states ?lr2) = {}"
        using disj bQ st2 qbQ by auto
      ultimately show ?thesis by auto
    qed
    have c: "\<not> state_equal (state_store ?lr2 ! (states ?lr2 ! i)) (state_store ?lr2 ! (states ?lr2 ! j))"
      if ij: "i < j \<and> j < length (states ?lr2)" for i j
    proof (cases "j < length (states lr)")
      case True
      with ij have "states ?lr2 ! i = states lr ! i" "states ?lr2 ! j = states lr ! j"
        unfolding st2 by (simp_all add: nth_append)
      with pw2 [of i j] ij True show ?thesis by simp
    next
      case False
      with ij st2 have j: "j = length (states lr)" by simp
      with ij have i: "i < length (states lr)" by simp
      from j have sj: "states ?lr2 ! j = ?q" unfolding st2 by simp
      from i have si: "states ?lr2 ! i = states lr ! i" unfolding st2 by (simp add: nth_append)
      from i have "states lr ! i \<in> set (states lr)" by simp
      from neq [OF this] show ?thesis unfolding si sj eq2 .
    qed
    from a d b c True show ?thesis unfolding automaton_inv_def by simp
  qed
qed



lemma calcTable_loop_inv:
  assumes "calcTable_loop lr Q = Some res"
  shows "automaton_inv lr Q \<longrightarrow> (\<forall>lr'. res = Inr lr' \<longrightarrow> automaton_inv lr' [])"
proof (rule calcTable_loop.raw_induct [OF _ assms])
  fix f lr Q res
  assume ih: "\<And>lr Q res. f lr Q = Some res \<Longrightarrow>
      automaton_inv lr Q \<longrightarrow> (\<forall>lr'. res = Inr lr' \<longrightarrow> automaton_inv lr' [])"
    and eq: "(if Q = [] then Some (Inr lr)
      else (case calcItemSet lr (last Q) of
              None \<Rightarrow> None
            | Some (Inl e) \<Rightarrow> Some (Inl e)
            | Some (Inr lrR) \<Rightarrow>
                if fst (addState (fst lrR) (last Q))
                then f (snd (addState (fst lrR) (last Q))) (butlast Q @ snd lrR)
                else f (snd (addState (fst lrR) (last Q))) (butlast Q))) = Some res"
  show "automaton_inv lr Q \<longrightarrow> (\<forall>lr'. res = Inr lr' \<longrightarrow> automaton_inv lr' [])"
  proof (intro impI allI)
    fix lr'
    assume inv: "automaton_inv lr Q" and res: "res = Inr lr'"
    show "automaton_inv lr' []"
    proof (cases "Q = []")
      case True
      with eq res inv show ?thesis by simp
    next
      case False
      from eq False res obtain lr1 R where
        run: "calcItemSet lr (last Q) = Some (Inr (lr1, R))"
        by (auto split: option.splits sum.splits)
      note step = automaton_inv_step [OF inv False run]
      show ?thesis
      proof (cases "fst (addState lr1 (last Q))")
        case True
        with eq False run have
          "f (snd (addState lr1 (last Q))) (butlast Q @ R) = Some res" by simp
        from ih [OF this] step True res show ?thesis by simp
      next
        case F: False
        with eq False run have
          "f (snd (addState lr1 (last Q))) (butlast Q) = Some res" by simp
        from ih [OF this] step F res show ?thesis by simp
      qed
    qed
  qed
qed

text \<open>An item as the spec sees it: its rule, its dot position and the set of its lookaheads.\<close>

definition item_key :: "LR1_StateItem \<Rightarrow> LR1_Rule \<times> nat \<times> string set" where
  "item_key i = (rule i, pos i, set (lookAheadSet i))"

lemma compareLookAhead_iff:
  assumes "distinct (lookAheadSet this)" "distinct l"
  shows "compareLookAhead this l = (set (lookAheadSet this) = set l)"
proof
  assume c: "compareLookAhead this l"
  then have len: "length (lookAheadSet this) = length l" and sub: "set l \<subseteq> set (lookAheadSet this)"
    by (auto simp: compareLookAhead_def list_all_iff split: if_splits)
  from len assms have "card (set l) = card (set (lookAheadSet this))"
    by (simp add: distinct_card)
  with sub show "set (lookAheadSet this) = set l"
    by (metis List.finite_set card_subset_eq)
next
  assume e: "set (lookAheadSet this) = set l"
  with assms have "length (lookAheadSet this) = length l"
    by (metis distinct_card)
  with e show "compareLookAhead this l"
    by (simp add: compareLookAhead_def list_all_iff)
qed

lemma item_equal_iff:
  assumes "distinct (lookAheadSet a)" "distinct (lookAheadSet b)"
  shows "item_equal a b = (item_key a = item_key b)"
  using compareLookAhead_iff [OF assms]
  by (auto simp: item_equal_def item_key_def)

lemma card_item_keys:
  assumes "core_unique items"
  shows "card (item_key ` set items) = length items"
proof -
  from assms have d: "distinct items" and i: "inj_on core (set items)"
    by (simp_all add: core_unique_def distinct_map)
  have "inj_on item_key (set items)"
  proof (rule inj_onI)
    fix a b assume a: "a \<in> set items" and b: "b \<in> set items" and e: "item_key a = item_key b"
    from e have "core a = core b" by (simp add: item_key_def core_def)
    with i a b show "a = b" by (auto dest: inj_onD)
  qed
  then have "card (item_key ` set items) = card (set items)" by (rule card_image)
  with d show ?thesis by (simp add: distinct_card)
qed

lemma state_equal_iff:
  assumes "state_wf a" "state_wf b"
  shows "state_equal a b = (item_key ` set (itemSet a) = item_key ` set (itemSet b))"
proof
  from assms have la: "\<And>i. i \<in> set (itemSet a) \<Longrightarrow> distinct (lookAheadSet i)"
    and lb: "\<And>i. i \<in> set (itemSet b) \<Longrightarrow> distinct (lookAheadSet i)"
    by (simp_all add: state_wf_def la_wf_def list_all_iff)
  from assms have ca: "card (item_key ` set (itemSet a)) = length (itemSet a)"
    and cb: "card (item_key ` set (itemSet b)) = length (itemSet b)"
    by (simp_all add: state_wf_def card_item_keys)
  {
    assume e: "state_equal a b"
    then have len: "length (itemSet a) = length (itemSet b)"
      and ex: "\<And>i. i \<in> set (itemSet a) \<Longrightarrow> \<exists>j \<in> set (itemSet b). item_equal i j"
      by (auto simp: state_equal_def list_all_iff list_ex_iff split: if_splits)
    have "item_key ` set (itemSet a) \<subseteq> item_key ` set (itemSet b)"
    proof
      fix k assume "k \<in> item_key ` set (itemSet a)"
      then obtain i where i: "i \<in> set (itemSet a)" and k: "k = item_key i" by blast
      from ex [OF i] obtain j where j: "j \<in> set (itemSet b)" and ij: "item_equal i j" by blast
      from ij item_equal_iff [OF la [OF i] lb [OF j]] have "item_key i = item_key j" by simp
      with j k show "k \<in> item_key ` set (itemSet b)" by blast
    qed
    moreover from ca cb len have
      "card (item_key ` set (itemSet a)) = card (item_key ` set (itemSet b))" by simp
    ultimately show "item_key ` set (itemSet a) = item_key ` set (itemSet b)"
      by (metis List.finite_set card_subset_eq finite_imageI)
  }
  {
    assume e: "item_key ` set (itemSet a) = item_key ` set (itemSet b)"
    with ca cb have len: "length (itemSet a) = length (itemSet b)" by simp
    have "\<exists>j \<in> set (itemSet b). item_equal i j" if i: "i \<in> set (itemSet a)" for i
    proof -
      from i e have "item_key i \<in> item_key ` set (itemSet b)" by blast
      then obtain j where j: "j \<in> set (itemSet b)" and k: "item_key i = item_key j" by blast
      from k item_equal_iff [OF la [OF i] lb [OF j]] have "item_equal i j" by simp
      with j show ?thesis by blast
    qed
    with len show "state_equal a b"
      by (simp add: state_equal_def list_all_iff list_ex_iff)
  }
qed

lemma calcTable_inv:
  assumes run: "calcTable lr = Some (Inr tbl, lr')" and fresh: "states lr = []"
  shows "automaton_inv lr' []"
proof -
  let ?s0 = "snd (addItem new_LR1_State
      \<lparr>pos = 0, lookAheadSet = set_add ''END'' [], rule = hd (assign_indices (rules lr))\<rparr>)"
  from run obtain fm lr1 where
    loop: "calcTable_loop
             (lr\<lparr>first := fm, rules := assign_indices (rules lr),
                 state_store := state_store lr @ [?s0]\<rparr>)
             [length (state_store lr)] = Some (Inr lr1)"
    and fin: "lr' = lr1\<lparr>table := Some tbl\<rparr>"
    unfolding calcTable_def
    by (auto split: if_splits option.splits sum.splits)
  let ?lr0 = "lr\<lparr>first := fm, rules := assign_indices (rules lr),
                 state_store := state_store lr @ [?s0]\<rparr>"
  have wf0: "state_wf ?s0"
    by (simp add: state_wf_def addItem_def new_LR1_State_def core_unique_def la_wf_def set_add_def)
  have "automaton_inv ?lr0 [length (state_store lr)]"
    unfolding automaton_inv_def using fresh wf0 by simp
  with calcTable_loop_inv [OF loop] have "automaton_inv lr1 []" by blast
  then show ?thesis unfolding fin automaton_inv_def by simp
qed



text \<open>
  Claim C4 (automaton uniqueness). Let \<open>calcTable\<close> complete on an object that has no
  admitted states yet. Then every admitted state has pairwise distinct cores and
  duplicate-free lookahead sets; \<open>equal\<close> holds between two admitted states exactly when
  they have the same set of items, an item being its rule, its dot position and the set of
  its lookaheads; and no two admitted states at different places of \<open>states\<close> are equal.
  \<open>addState\<close> keeps this: it appends the new state only when no admitted state is equal to
  it, and otherwise leaves \<open>states\<close> as it is.
\<close>

theorem automaton_states_unique:
  assumes "calcTable lr = Some (Inr tbl, lr')" and "states lr = []"
  shows "(\<forall>i j. i < length (states lr') \<and> j < length (states lr') \<longrightarrow>
            state_wf (state_store lr' ! (states lr' ! i)) \<and>
            state_equal (state_store lr' ! (states lr' ! i)) (state_store lr' ! (states lr' ! j)) =
              (item_key ` set (itemSet (state_store lr' ! (states lr' ! i))) =
               item_key ` set (itemSet (state_store lr' ! (states lr' ! j)))) \<and>
            (i \<noteq> j \<longrightarrow>
               \<not> state_equal (state_store lr' ! (states lr' ! i))
                    (state_store lr' ! (states lr' ! j)))) \<and>
         (\<forall>l q. (fst (addState l q) \<longrightarrow>
                    states (snd (addState l q)) = states l @ [q] \<and>
                    (\<forall>s \<in> set (states l).
                       \<not> state_equal (state_store l ! s) (state_store l ! q))) \<and>
                 (\<not> fst (addState l q) \<longrightarrow>
                    states (snd (addState l q)) = states l \<and>
                    (\<exists>s \<in> set (states l). state_equal (state_store l ! s) (state_store l ! q))))"
proof -
  let ?S = "\<lambda>i. state_store lr' ! (states lr' ! i)"
  from calcTable_inv [OF assms] have
    wf: "\<And>s. s \<in> set (states lr') \<Longrightarrow> state_wf (state_store lr' ! s)" and
    pw: "\<And>i j. i < j \<Longrightarrow> j < length (states lr') \<Longrightarrow> \<not> state_equal (?S i) (?S j)"
    unfolding automaton_inv_def by simp_all
  have a: "state_wf (?S i) \<and>
      state_equal (?S i) (?S j) = (item_key ` set (itemSet (?S i)) = item_key ` set (itemSet (?S j))) \<and>
      (i \<noteq> j \<longrightarrow> \<not> state_equal (?S i) (?S j))"
    if "i < length (states lr') \<and> j < length (states lr')" for i j
  proof -
    from that have wi: "state_wf (?S i)" and wj: "state_wf (?S j)" by (simp_all add: wf)
    note iff = state_equal_iff [OF wi wj]
    have "\<not> state_equal (?S i) (?S j)" if ne: "i \<noteq> j"
    proof (cases "i < j")
      case True
      with pw \<open>i < length (states lr') \<and> j < length (states lr')\<close> show ?thesis by simp
    next
      case False
      with ne have "j < i" by simp
      with pw \<open>i < length (states lr') \<and> j < length (states lr')\<close>
      have "\<not> state_equal (?S j) (?S i)" by simp
      then show ?thesis unfolding iff state_equal_iff [OF wj wi] by blast
    qed
    with wi iff show ?thesis by blast
  qed
  have b: "(fst (addState l q) \<longrightarrow>
                    states (snd (addState l q)) = states l @ [q] \<and>
                    (\<forall>s \<in> set (states l).
                       \<not> state_equal (state_store l ! s) (state_store l ! q))) \<and>
                 (\<not> fst (addState l q) \<longrightarrow>
                    states (snd (addState l q)) = states l \<and>
                    (\<exists>s \<in> set (states l). state_equal (state_store l ! s) (state_store l ! q)))"
    for l q
    using addState_frame [of l q] by blast
  from a b show ?thesis by blast
qed

lemma calcTable_grammar_sa_items:
  "map_option (\<lambda>r. (itemSet (state_store (snd r) ! 0), itemSet (state_store (snd r) ! 2)))
     (calcTable (new_LR1\<lparr>rules := grammar_sa\<rparr>)) =
     Some ([\<lparr>pos = 0, lookAheadSet = [''END''], rule = assign_indices grammar_sa ! 0\<rparr>,
            \<lparr>pos = 0, lookAheadSet = [''END'', '':x''], rule = assign_indices grammar_sa ! 1\<rparr>,
            \<lparr>pos = 0, lookAheadSet = [''END'', '':x''], rule = assign_indices grammar_sa ! 2\<rparr>],
           [\<lparr>pos = 1, lookAheadSet = [''END''], rule = assign_indices grammar_sa ! 0\<rparr>,
            \<lparr>pos = 1, lookAheadSet = [''END'', '':x''], rule = assign_indices grammar_sa ! 1\<rparr>])"
  by code_simp

theorem automaton_states_unique_witness:
  "\<exists>tbl lr'. calcTable (new_LR1\<lparr>rules := grammar_sa\<rparr>) = Some (Inr tbl, lr') \<and>
     states (new_LR1\<lparr>rules := grammar_sa\<rparr>) = [] \<and>
     states lr' = [0, 2, 3, 1] \<and>
     itemSet (state_store lr' ! 0) =
       [\<lparr>pos = 0, lookAheadSet = [''END''], rule = assign_indices grammar_sa ! 0\<rparr>,
        \<lparr>pos = 0, lookAheadSet = [''END'', '':x''], rule = assign_indices grammar_sa ! 1\<rparr>,
        \<lparr>pos = 0, lookAheadSet = [''END'', '':x''], rule = assign_indices grammar_sa ! 2\<rparr>] \<and>
     itemSet (state_store lr' ! 2) =
       [\<lparr>pos = 1, lookAheadSet = [''END''], rule = assign_indices grammar_sa ! 0\<rparr>,
        \<lparr>pos = 1, lookAheadSet = [''END'', '':x''], rule = assign_indices grammar_sa ! 1\<rparr>] \<and>
     state_wf (state_store lr' ! 0) \<and>
     \<not> state_equal (state_store lr' ! 0) (state_store lr' ! 2)"
proof -
  from calcTable_grammar_sa obtain tbl lr' where
    run: "calcTable (new_LR1\<lparr>rules := grammar_sa\<rparr>) = Some (Inr tbl, lr')"
    by (cases "calcTable (new_LR1\<lparr>rules := grammar_sa\<rparr>)") auto
  have fresh: "states (new_LR1\<lparr>rules := grammar_sa\<rparr>) = []" by (simp add: new_LR1_def)
  from run calcTable_grammar_sa_states have st: "states lr' = [0, 2, 3, 1]" by simp
  from run calcTable_grammar_sa_items have i0: "itemSet (state_store lr' ! 0) =
       [\<lparr>pos = 0, lookAheadSet = [''END''], rule = assign_indices grammar_sa ! 0\<rparr>,
        \<lparr>pos = 0, lookAheadSet = [''END'', '':x''], rule = assign_indices grammar_sa ! 1\<rparr>,
        \<lparr>pos = 0, lookAheadSet = [''END'', '':x''], rule = assign_indices grammar_sa ! 2\<rparr>]"
    and i2: "itemSet (state_store lr' ! 2) =
       [\<lparr>pos = 1, lookAheadSet = [''END''], rule = assign_indices grammar_sa ! 0\<rparr>,
        \<lparr>pos = 1, lookAheadSet = [''END'', '':x''], rule = assign_indices grammar_sa ! 1\<rparr>]"
    by simp_all
  note inst = automaton_states_unique [OF run fresh]
  have r0: "(0::nat) < length (states lr') \<and> (1::nat) < length (states lr')" and ne: "(0::nat) \<noteq> 1"
    using st by simp_all
  from inst have "\<forall>i j. i < length (states lr') \<and> j < length (states lr') \<longrightarrow>
            state_wf (state_store lr' ! (states lr' ! i)) \<and>
            (i \<noteq> j \<longrightarrow>
               \<not> state_equal (state_store lr' ! (states lr' ! i))
                    (state_store lr' ! (states lr' ! j)))"
    by blast
  with r0 ne have "state_wf (state_store lr' ! (states lr' ! 0)) \<and>
      \<not> state_equal (state_store lr' ! (states lr' ! 0)) (state_store lr' ! (states lr' ! 1))"
    by blast
  with st have w: "state_wf (state_store lr' ! 0)"
    and n: "\<not> state_equal (state_store lr' ! 0) (state_store lr' ! 2)"
    by simp_all
  from run fresh st i0 i2 w n show ?thesis by blast
qed

section \<open>The edges of the automaton\<close>

text \<open>
  The cores of the seeds of the successors of a state: the cores of its items with the dot
  one place further.
\<close>

definition seed_cores :: "LR1_StateItem list \<Rightarrow> (LR1_Rule \<times> nat) set" where
  "seed_cores items = (\<lambda>it. (rule it, Suc (pos it))) ` set items"

lemma addItem_items_core_set:
  "core ` set (snd (addItem_items items newItem)) = insert (core newItem) (core ` set items)"
proof -
  have "set (map core (snd (addItem_items items newItem))) = insert (core newItem) (set (map core items))"
    unfolding addItem_items_cores by auto
  then show ?thesis by simp
qed

lemma fold_addItem_core_set:
  "core ` set (fold (\<lambda>item acc. snd (addItem_items acc item)) new acc) =
     core ` set acc \<union> core ` set new"
  by (induction new arbitrary: acc) (auto simp: addItem_items_core_set)

lemma closure_newItems_cores:
  "closure_newItems rs fm item = Inr new \<Longrightarrow> it \<in> set new \<Longrightarrow> pos it = 0 \<and> rule it \<in> set rs"
  by (auto simp: closure_newItems_def split: if_splits sum.splits)

lemma closure_collect_cores:
  "closure_collect rs fm items = Inr new \<Longrightarrow> it \<in> set new \<Longrightarrow> pos it = 0 \<and> rule it \<in> set rs"
proof (induction items arbitrary: new)
  case Nil
  then show ?case by simp
next
  case (Cons item items)
  from Cons.prems(1) obtain n1 n2 where n1: "closure_newItems rs fm item = Inr n1"
    and n2: "closure_collect rs fm items = Inr n2" and new: "new = n1 @ n2"
    by (auto split: sum.splits)
  from Cons.prems(2) new have "it \<in> set n1 \<or> it \<in> set n2" by simp
  then show ?case
  proof
    assume "it \<in> set n1"
    with n1 show ?thesis by (rule closure_newItems_cores)
  next
    assume "it \<in> set n2"
    with n2 show ?thesis by (rule Cons.IH)
  qed
qed

lemma closure_pass_cores:
  assumes "closure_pass rs fm items = Inr items'" and "it \<in> set items'"
  shows "core it \<in> core ` set items \<or> (pos it = 0 \<and> rule it \<in> set rs)"
proof -
  from assms(1) obtain new where c: "closure_collect rs fm items = Inr new"
    and e: "items' = fold (\<lambda>item acc. snd (addItem_items acc item)) new items"
    by (auto simp: closure_pass_def split: sum.splits)
  from assms(2) have "core it \<in> core ` set items'" by blast
  then have "core it \<in> core ` set items \<union> core ` set new"
    unfolding e fold_addItem_core_set .
  then show ?thesis
  proof
    assume "core it \<in> core ` set items"
    then show ?thesis by simp
  next
    assume "core it \<in> core ` set new"
    then obtain n where n: "n \<in> set new" and k: "core it = core n" by blast
    from closure_collect_cores [OF c n] k show ?thesis by (simp add: core_def)
  qed
qed

lemma closure_loop_cores:
  assumes "closure_loop rs fm items = Some (Inr items')"
  shows "\<forall>it \<in> set items'. core it \<in> core ` set items \<or> (pos it = 0 \<and> rule it \<in> set rs)"
proof -
  let ?P = "\<lambda>a. \<forall>it \<in> set a. core it \<in> core ` set items \<or> (pos it = 0 \<and> rule it \<in> set rs)"
  have step: "?P b" if pa: "?P a" and pass: "closure_pass rs fm a = Inr b" for a b
  proof
    fix it assume "it \<in> set b"
    from closure_pass_cores [OF pass this] show
      "core it \<in> core ` set items \<or> (pos it = 0 \<and> rule it \<in> set rs)"
    proof
      assume "core it \<in> core ` set a"
      then obtain x where x: "x \<in> set a" and k: "core it = core x" by blast
      from pa x k show ?thesis by (auto simp: core_def)
    qed simp
  qed
  have "?P items" by simp
  with closure_loop_induct [OF assms, of ?P] step show ?thesis by blast
qed

lemma successor_seeds_cores:
  "successor_seeds ty v items si = Inr si' \<Longrightarrow>
     core ` set (itemSet si') \<subseteq> core ` set (itemSet si) \<union> seed_cores items"
proof (induction items arbitrary: si)
  case Nil
  then show ?case by auto
next
  case (Cons item items)
  have sc: "seed_cores items \<subseteq> seed_cores (item # items)" by (auto simp: seed_cores_def)
  show ?case
  proof (cases "dot_before ty v item")
    case False
    then have "successor_seeds ty v (item # items) si = successor_seeds ty v items si"
      unfolding dot_before_def by (simp del: de_Morgan_conj)
    with Cons sc show ?thesis by fastforce
  next
    case True
    then have step: "successor_seeds ty v (item # items) si =
        (if fst (addItem si (advance item))
         then successor_seeds ty v items (snd (addItem si (advance item)))
         else Inl ProcessExit)"
      unfolding dot_before_def by simp
    with Cons.prems(1) have
      rest: "successor_seeds ty v items (snd (addItem si (advance item))) = Inr si'"
      by (simp split: if_splits)
    have "core ` set (itemSet (snd (addItem si (advance item)))) =
        insert (core (advance item)) (core ` set (itemSet si))"
      by (simp add: addItem_def addItem_items_core_set)
    moreover have "core (advance item) \<in> seed_cores (item # items)"
      by (simp add: seed_cores_def core_advance)
    ultimately show ?thesis using Cons.IH [OF rest] sc by auto
  qed
qed

lemma make_successors_graph:
  "make_successors ty vs q lr s = Inr (lr', s') \<Longrightarrow> q < length (state_store lr) \<Longrightarrow>
     length (edge_store lr') = length (edge_store lr) + length vs \<and>
     (\<forall>e < length (edge_store lr). edge_store lr' ! e = edge_store lr ! e) \<and>
     (\<forall>k < length vs.
        dest (edge_store lr' ! (length (edge_store lr) + k)) = length (state_store lr) + k) \<and>
     outEdges (state_store lr' ! q) =
       outEdges (state_store lr ! q) @
         [length (edge_store lr) ..< length (edge_store lr) + length vs] \<and>
     inEdges (state_store lr' ! q) = inEdges (state_store lr ! q) \<and>
     (\<forall>a < length (state_store lr). a \<noteq> q \<longrightarrow> state_store lr' ! a = state_store lr ! a) \<and>
     (\<forall>k < length vs.
        inEdges (state_store lr' ! (length (state_store lr) + k)) = [length (edge_store lr) + k] \<and>
        outEdges (state_store lr' ! (length (state_store lr) + k)) = [] \<and>
        core ` set (itemSet (state_store lr' ! (length (state_store lr) + k))) \<subseteq>
          seed_cores (itemSet (state_store lr ! q)))"
proof (induction vs arbitrary: lr s)
  case Nil
  then show ?case by auto
next
  case (Cons v vs)
  let ?m = "length (edge_store lr)"
  let ?n = "length (state_store lr)"
  from Cons.prems(1) obtain si where
    seeds: "successor_seeds ty v (itemSet (state_store lr ! q))
              (new_LR1_State\<lparr>inEdges := [?m]\<rparr>) = Inr si"
    by (auto split: sum.splits)
  let ?lr = "lr\<lparr>state_store :=
                   (state_store lr)[q := (state_store lr ! q)
                      \<lparr>outEdges := outEdges (state_store lr ! q) @ [?m]\<rparr>] @ [si],
                 edge_store := edge_store lr @
                   [\<lparr>src = q, dest = ?n, label = \<lparr>item_type = ty, item_value = v\<rparr>\<rparr>]\<rparr>"
  from Cons.prems(1) seeds have
    rest: "make_successors ty vs q ?lr (s @ [?n]) = Inr (lr', s')"
    by simp
  have q': "q < length (state_store ?lr)" using Cons.prems(2) by simp
  have lenE: "length (edge_store ?lr) = Suc ?m" by simp
  have lenS: "length (state_store ?lr) = Suc ?n" by simp
  have midq: "state_store ?lr ! q =
      (state_store lr ! q)\<lparr>outEdges := outEdges (state_store lr ! q) @ [?m]\<rparr>"
    using Cons.prems(2) by (simp add: nth_append)
  have mida: "state_store ?lr ! a = state_store lr ! a" if "a < ?n" "a \<noteq> q" for a
    using that by (simp add: nth_append)
  have midn: "state_store ?lr ! ?n = si" by (simp add: nth_append)
  have mide: "edge_store ?lr ! e = edge_store lr ! e" if "e < ?m" for e
    using that by (simp add: nth_append)
  have midm: "dest (edge_store ?lr ! ?m) = ?n" by (simp add: nth_append)
  note ih = Cons.IH [OF rest q', unfolded lenE lenS]
  from ih have g1': "length (edge_store lr') = Suc ?m + length vs" by blast
  from ih have g2': "\<And>e. e < Suc ?m \<Longrightarrow> edge_store lr' ! e = edge_store ?lr ! e" by blast
  from ih have g3': "\<And>k. k < length vs \<Longrightarrow> dest (edge_store lr' ! (Suc ?m + k)) = Suc ?n + k"
    by blast
  from ih have g4': "outEdges (state_store lr' ! q) =
      outEdges (state_store ?lr ! q) @ [Suc ?m ..< Suc ?m + length vs]" by blast
  from ih have g5': "inEdges (state_store lr' ! q) = inEdges (state_store ?lr ! q)" by blast
  from ih have g6': "\<And>a. a < Suc ?n \<Longrightarrow> a \<noteq> q \<Longrightarrow> state_store lr' ! a = state_store ?lr ! a"
    by blast
  from ih have g7': "\<And>k. k < length vs \<Longrightarrow>
        inEdges (state_store lr' ! (Suc ?n + k)) = [Suc ?m + k] \<and>
        outEdges (state_store lr' ! (Suc ?n + k)) = [] \<and>
        core ` set (itemSet (state_store lr' ! (Suc ?n + k))) \<subseteq>
          seed_cores (itemSet (state_store ?lr ! q))" by blast
  have g1: "length (edge_store lr') = ?m + length (v # vs)" using g1' by simp
  have g2: "edge_store lr' ! e = edge_store lr ! e" if "e < ?m" for e
    using g2' [of e] mide [OF that] that by simp
  have g3: "dest (edge_store lr' ! (?m + k)) = ?n + k" if "k < length (v # vs)" for k
  proof (cases k)
    case 0
    with g2' [of ?m] midm show ?thesis by simp
  next
    case (Suc j)
    with that g3' [of j] show ?thesis by simp
  qed
  have g4: "outEdges (state_store lr' ! q) =
      outEdges (state_store lr ! q) @ [?m ..< ?m + length (v # vs)]"
  proof -
    have u: "[?m ..< ?m + length (v # vs)] = ?m # [Suc ?m ..< Suc ?m + length vs]"
      by (subst upt_rec) simp
    show ?thesis unfolding g4' midq u by simp
  qed
  have g5: "inEdges (state_store lr' ! q) = inEdges (state_store lr ! q)"
    unfolding g5' midq by simp
  have g6: "state_store lr' ! a = state_store lr ! a" if "a < ?n" "a \<noteq> q" for a
    using g6' [of a] mida [OF that] that by simp
  have sif: "inEdges si = [?m] \<and> outEdges si = []"
    using successor_seeds_other_fields [OF seeds] by (simp add: new_LR1_State_def)
  have sic: "core ` set (itemSet si) \<subseteq> seed_cores (itemSet (state_store lr ! q))"
    using successor_seeds_cores [OF seeds] by (simp add: new_LR1_State_def)
  have nq: "?n \<noteq> q" using Cons.prems(2) by simp
  have g7: "inEdges (state_store lr' ! (?n + k)) = [?m + k] \<and>
        outEdges (state_store lr' ! (?n + k)) = [] \<and>
        core ` set (itemSet (state_store lr' ! (?n + k))) \<subseteq>
          seed_cores (itemSet (state_store lr ! q))" if "k < length (v # vs)" for k
  proof (cases k)
    case 0
    from g6' [of ?n] nq midn have "state_store lr' ! ?n = si" by simp
    with sif sic 0 show ?thesis by simp
  next
    case (Suc j)
    with that g7' [of j] midq show ?thesis by simp
  qed
  from g1 g2 g3 g4 g5 g6 g7 show ?case by blast
qed

lemma calcItemSet_graph:
  assumes run: "calcItemSet lr q = Some (Inr (lr', R))"
    and q: "q < length (state_store lr)"
    and noout: "outEdges (state_store lr ! q) = []"
  shows "length (edge_store lr) \<le> length (edge_store lr') \<and>
     length (state_store lr') =
       length (state_store lr) + (length (edge_store lr') - length (edge_store lr)) \<and>
     (\<forall>e < length (edge_store lr). edge_store lr' ! e = edge_store lr ! e) \<and>
     (\<forall>e. length (edge_store lr) \<le> e \<and> e < length (edge_store lr') \<longrightarrow>
        dest (edge_store lr' ! e) = length (state_store lr) + (e - length (edge_store lr))) \<and>
     (\<forall>a < length (state_store lr). a \<noteq> q \<longrightarrow> state_store lr' ! a = state_store lr ! a) \<and>
     outEdges (state_store lr' ! q) = [length (edge_store lr) ..< length (edge_store lr')] \<and>
     inEdges (state_store lr' ! q) = inEdges (state_store lr ! q) \<and>
     (\<forall>a. length (state_store lr) \<le> a \<and> a < length (state_store lr') \<longrightarrow>
        inEdges (state_store lr' ! a) = [length (edge_store lr) + (a - length (state_store lr))] \<and>
        outEdges (state_store lr' ! a) = [] \<and>
        core ` set (itemSet (state_store lr' ! a)) \<subseteq> seed_cores (itemSet (state_store lr' ! q))) \<and>
     (\<forall>it \<in> set (itemSet (state_store lr' ! q)).
        core it \<in> core ` set (itemSet (state_store lr ! q)) \<or>
        (pos it = 0 \<and> rule it \<in> set (rules lr)))"
proof -
  let ?n = "length (state_store lr)"
  let ?m = "length (edge_store lr)"
  from run obtain items where
    cl: "closure_loop (rules lr) (first lr) (itemSet (state_store lr ! q)) = Some (Inr items)"
    by (auto simp: calcItemSet_def split: option.splits sum.splits)
  let ?lr0 = "lr\<lparr>state_store := (state_store lr)[q := (state_store lr ! q)\<lparr>itemSet := items\<rparr>]\<rparr>"
  let ?ts = "fst (successor_symbols items ([], []))"
  let ?nts = "snd (successor_symbols items ([], []))"
  from run cl obtain lr1 s1 where
    m1: "make_successors Terminal ?ts q ?lr0 [] = Inr (lr1, s1)"
    and m2: "make_successors NonTerminal ?nts q lr1 s1 = Inr (lr', R)"
    by (auto simp: calcItemSet_def split: sum.splits)
  have q0: "q < length (state_store ?lr0)" using q by simp
  have n0: "length (state_store ?lr0) = ?n" by simp
  have e0: "edge_store ?lr0 = edge_store lr" by simp
  have sq0: "state_store ?lr0 ! q = (state_store lr ! q)\<lparr>itemSet := items\<rparr>" using q by simp
  have sa0: "\<And>a. a \<noteq> q \<Longrightarrow> state_store ?lr0 ! a = state_store lr ! a" by simp
  note f1 = make_successors_frame [OF m1 q0, unfolded n0]
  note g1 = make_successors_graph [OF m1 q0, unfolded n0 e0 sq0]
  from f1 have n1: "length (state_store lr1) = ?n + length ?ts" by blast
  from g1 have e1: "length (edge_store lr1) = ?m + length ?ts" by blast
  from n1 q have q1: "q < length (state_store lr1)" by simp
  note f2 = make_successors_frame [OF m2 q1, unfolded n1]
  note g2 = make_successors_graph [OF m2 q1, unfolded n1 e1]
  from f2 have n2: "length (state_store lr') = ?n + length ?ts + length ?nts" by blast
  from g2 have e2: "length (edge_store lr') = ?m + length ?ts + length ?nts" by blast
  from f1 have it1: "itemSet (state_store lr1 ! q) = items" using q sq0 by simp
  from f2 q1 n1 have "itemSet (state_store lr' ! q) = itemSet (state_store lr1 ! q)" by simp
  with it1 have it2: "itemSet (state_store lr' ! q) = items" by simp
  have a1: "?m \<le> length (edge_store lr')" using e2 by simp
  have a2: "length (state_store lr') = ?n + (length (edge_store lr') - ?m)"
    using n2 e2 by simp
  have a3: "edge_store lr' ! e = edge_store lr ! e" if "e < ?m" for e
  proof -
    from that e1 have "e < length (edge_store lr1)" by simp
    with g2 e1 have "edge_store lr' ! e = edge_store lr1 ! e" by simp
    moreover from g1 that have "edge_store lr1 ! e = edge_store lr ! e" by blast
    ultimately show ?thesis by simp
  qed
  have a4: "dest (edge_store lr' ! e) = ?n + (e - ?m)"
    if "?m \<le> e \<and> e < length (edge_store lr')" for e
  proof (cases "e < ?m + length ?ts")
    case True
    then have "edge_store lr' ! e = edge_store lr1 ! e" using g2 by simp
    moreover from True that have k: "e - ?m < length ?ts" by arith
    from g1 k have "dest (edge_store lr1 ! (?m + (e - ?m))) = ?n + (e - ?m)" by blast
    ultimately show ?thesis using that by simp
  next
    case False
    with that e2 have k: "e - (?m + length ?ts) < length ?nts" by arith
    from g2 k have "dest (edge_store lr' ! (?m + length ?ts + (e - (?m + length ?ts)))) =
        ?n + length ?ts + (e - (?m + length ?ts))" by blast
    with False show ?thesis by simp
  qed
  have a5: "state_store lr' ! a = state_store lr ! a" if "a < ?n" "a \<noteq> q" for a
  proof -
    from that have "a < ?n + length ?ts" by simp
    with g2 that have "state_store lr' ! a = state_store lr1 ! a" by blast
    moreover from g1 that have "state_store lr1 ! a = state_store ?lr0 ! a" by blast
    ultimately show ?thesis using sa0 [OF that(2)] by simp
  qed
  have a6: "outEdges (state_store lr' ! q) = [?m ..< length (edge_store lr')]"
  proof -
    from g1 noout have "outEdges (state_store lr1 ! q) = [?m ..< ?m + length ?ts]" by simp
    with g2 have "outEdges (state_store lr' ! q) =
        [?m ..< ?m + length ?ts] @ [?m + length ?ts ..< ?m + length ?ts + length ?nts]"
      by simp
    also have "\<dots> = [?m ..< ?m + length ?ts + length ?nts]"
      by (metis le_add1 upt_add_eq_append)
    finally show ?thesis unfolding e2 .
  qed
  have a7: "inEdges (state_store lr' ! q) = inEdges (state_store lr ! q)"
    using g1 g2 by simp
  have a8: "inEdges (state_store lr' ! a) = [?m + (a - ?n)] \<and>
        outEdges (state_store lr' ! a) = [] \<and>
        core ` set (itemSet (state_store lr' ! a)) \<subseteq> seed_cores (itemSet (state_store lr' ! q))"
    if "?n \<le> a \<and> a < length (state_store lr')" for a
  proof (cases "a < ?n + length ?ts")
    case True
    from that q have "a \<noteq> q" by simp
    with g2 True have eq: "state_store lr' ! a = state_store lr1 ! a" by blast
    from True that have k: "a - ?n < length ?ts" by arith
    from g1 k have "inEdges (state_store lr1 ! (?n + (a - ?n))) = [?m + (a - ?n)] \<and>
        outEdges (state_store lr1 ! (?n + (a - ?n))) = [] \<and>
        core ` set (itemSet (state_store lr1 ! (?n + (a - ?n)))) \<subseteq>
          seed_cores (itemSet ((state_store lr ! q)\<lparr>itemSet := items\<rparr>))" by blast
    with that eq it2 show ?thesis by simp
  next
    case False
    with that n2 have k: "a - (?n + length ?ts) < length ?nts" by arith
    from g2 k have "inEdges (state_store lr' ! (?n + length ?ts + (a - (?n + length ?ts)))) =
          [?m + length ?ts + (a - (?n + length ?ts))] \<and>
        outEdges (state_store lr' ! (?n + length ?ts + (a - (?n + length ?ts)))) = [] \<and>
        core ` set (itemSet (state_store lr' ! (?n + length ?ts + (a - (?n + length ?ts))))) \<subseteq>
          seed_cores (itemSet (state_store lr1 ! q))" by blast
    with False it1 it2 show ?thesis by simp
  qed
  have a9: "core it \<in> core ` set (itemSet (state_store lr ! q)) \<or>
        (pos it = 0 \<and> rule it \<in> set (rules lr))"
    if "it \<in> set (itemSet (state_store lr' ! q))" for it
    using closure_loop_cores [OF cl] that it2 by blast
  from a1 a2 a3 a4 a5 a6 a7 a8 a9 show ?thesis by blast
qed

lemma redirect_inEdges_graph:
  "length (edge_store (redirect_inEdges us s lr)) = length (edge_store lr) \<and>
   (\<forall>e. e \<notin> set us \<longrightarrow> edge_store (redirect_inEdges us s lr) ! e = edge_store lr ! e) \<and>
   (\<forall>e \<in> set us. e < length (edge_store lr) \<longrightarrow>
      dest (edge_store (redirect_inEdges us s lr) ! e) = s) \<and>
   (\<forall>a. a \<noteq> s \<longrightarrow> state_store (redirect_inEdges us s lr) ! a = state_store lr ! a) \<and>
   outEdges (state_store (redirect_inEdges us s lr) ! s) = outEdges (state_store lr ! s) \<and>
   state_index (state_store (redirect_inEdges us s lr) ! s) = state_index (state_store lr ! s) \<and>
   rules (redirect_inEdges us s lr) = rules lr"
proof (induction us arbitrary: lr)
  case Nil
  then show ?case by simp
next
  case (Cons u us)
  let ?es = "(edge_store lr)[u := (edge_store lr ! u)\<lparr>dest := s\<rparr>]"
  let ?lr1 = "lr\<lparr>edge_store := ?es\<rparr>"
  let ?lr2 = "lr\<lparr>edge_store := ?es,
                state_store := (state_store lr)[s := (state_store lr ! s)
                   \<lparr>inEdges := inEdges (state_store lr ! s) @ [u]\<rparr>]\<rparr>"
  define mid where "mid =
      (if list_ex (\<lambda>v. edge_same (?es ! u) (?es ! v)) (inEdges (state_store lr ! s))
       then ?lr1 else ?lr2)"
  have step: "redirect_inEdges (u # us) s lr = redirect_inEdges us s mid"
    unfolding mid_def by simp
  have me: "edge_store mid = ?es" unfolding mid_def by simp
  have mr: "rules mid = rules lr" unfolding mid_def by simp
  have ma: "state_store mid ! a = state_store lr ! a" if "a \<noteq> s" for a
    unfolding mid_def using that by simp
  have ms: "outEdges (state_store mid ! s) = outEdges (state_store lr ! s) \<and>
      state_index (state_store mid ! s) = state_index (state_store lr ! s)"
    unfolding mid_def
    by (cases "s < length (state_store lr)") (simp_all add: list_update_beyond)
  note ih = Cons.IH [of mid, unfolded me mr]
  have l: "length (edge_store (redirect_inEdges (u # us) s lr)) = length (edge_store lr)"
    unfolding step using ih by simp
  have o: "edge_store (redirect_inEdges (u # us) s lr) ! e = edge_store lr ! e"
    if "e \<notin> set (u # us)" for e
  proof -
    from that have "e \<notin> set us" "e \<noteq> u" by auto
    with ih show ?thesis unfolding step by simp
  qed
  have d: "dest (edge_store (redirect_inEdges (u # us) s lr) ! e) = s"
    if "e \<in> set (u # us)" "e < length (edge_store lr)" for e
  proof (cases "e \<in> set us")
    case True
    with ih that(2) show ?thesis unfolding step by simp
  next
    case False
    with that have "e = u" by simp
    with False ih that(2) show ?thesis unfolding step by simp
  qed
  have a: "state_store (redirect_inEdges (u # us) s lr) ! a = state_store lr ! a"
    if "a \<noteq> s" for a
    unfolding step using ih ma [OF that] that by simp
  have s: "outEdges (state_store (redirect_inEdges (u # us) s lr) ! s) = outEdges (state_store lr ! s) \<and>
      state_index (state_store (redirect_inEdges (u # us) s lr) ! s) = state_index (state_store lr ! s)"
    unfolding step using ih ms by simp
  have r: "rules (redirect_inEdges (u # us) s lr) = rules lr"
    unfolding step using ih by simp
  from l o d a s r show ?case by blast
qed

text \<open>
  The worklist loop keeps the graph in shape. \<open>pred_ok lr s t\<close>: every item of \<open>t\<close> with the
  dot past the start is an item of \<open>s\<close> with the dot advanced. For the admitted states
  \<open>states lr\<close> and the states \<open>Q\<close> that wait: a state at place \<open>i\<close> has the index \<open>i\<close>; an
  out-edge of an admitted state ends in an admitted state that is \<open>pred_ok\<close>, or in a waiting
  state that holds only seeds and has this edge as its only in-edge; a waiting state has no
  out-edge, and its in-edges end in it; the first admitted state (or every waiting state,
  before one is admitted) has the dot at the start of all its items; the rule of every
  item is a rule of the grammar.
\<close>

definition pred_ok :: "LR1 \<Rightarrow> nat \<Rightarrow> nat \<Rightarrow> bool" where
  "pred_ok lr s t =
     (\<forall>it \<in> set (itemSet (state_store lr ! t)).
        pos it > 0 \<longrightarrow> core it \<in> seed_cores (itemSet (state_store lr ! s)))"

definition graph_index :: "LR1 \<Rightarrow> bool" where
  "graph_index lr =
     (\<forall>i < length (states lr). state_index (state_store lr ! (states lr ! i)) = int i)"

definition graph_edges :: "LR1 \<Rightarrow> nat list \<Rightarrow> bool" where
  "graph_edges lr Q =
     (\<forall>s \<in> set (states lr). \<forall>e \<in> set (outEdges (state_store lr ! s)).
        e < length (edge_store lr) \<and>
        ((dest (edge_store lr ! e) \<in> set (states lr) \<and>
          pred_ok lr s (dest (edge_store lr ! e))) \<or>
         (dest (edge_store lr ! e) \<in> set Q \<and>
          inEdges (state_store lr ! dest (edge_store lr ! e)) = [e] \<and>
          core ` set (itemSet (state_store lr ! dest (edge_store lr ! e))) \<subseteq>
            seed_cores (itemSet (state_store lr ! s)))))"

definition graph_queue :: "LR1 \<Rightarrow> nat list \<Rightarrow> bool" where
  "graph_queue lr Q =
     (\<forall>q \<in> set Q. outEdges (state_store lr ! q) = [] \<and>
        (\<forall>e \<in> set (inEdges (state_store lr ! q)).
           e < length (edge_store lr) \<and> dest (edge_store lr ! e) = q))"

definition graph_init :: "LR1 \<Rightarrow> nat list \<Rightarrow> bool" where
  "graph_init lr Q =
     (\<forall>s \<in> (if states lr = [] then set Q else {states lr ! 0}).
        \<forall>it \<in> set (itemSet (state_store lr ! s)). pos it = 0)"

definition graph_rules :: "LR1 \<Rightarrow> nat list \<Rightarrow> bool" where
  "graph_rules lr Q =
     (\<forall>s \<in> set (states lr) \<union> set Q.
        \<forall>it \<in> set (itemSet (state_store lr ! s)). rule it \<in> set (rules lr))"

definition graph_inv :: "LR1 \<Rightarrow> nat list \<Rightarrow> bool" where
  "graph_inv lr Q =
     (graph_index lr \<and> graph_edges lr Q \<and> graph_queue lr Q \<and> graph_init lr Q \<and>
      graph_rules lr Q)"

lemma state_equal_cores:
  assumes "state_wf a" "state_wf b" "state_equal a b"
  shows "core ` set (itemSet a) = core ` set (itemSet b)"
proof -
  from state_equal_iff [OF assms(1,2)] assms(3)
  have k: "item_key ` set (itemSet a) = item_key ` set (itemSet b)" by simp
  have c: "core ` set xs = (\<lambda>k. (fst k, fst (snd k))) ` item_key ` set xs" for xs
    by (auto simp: core_def item_key_def image_image)
  show ?thesis unfolding c k ..
qed

text \<open>
  The graph between \<open>calcItemSet\<close> on the state \<open>q\<close> popped from the worklist and \<open>addState\<close>:
  \<open>Q0\<close> is the rest of the worklist and \<open>R\<close> are the successors of \<open>q\<close>.
\<close>

definition graph_mid :: "LR1 \<Rightarrow> nat list \<Rightarrow> nat \<Rightarrow> nat list \<Rightarrow> bool" where
  "graph_mid l Q0 q R =
     (graph_index l \<and>
      (\<forall>s \<in> set (states l). \<forall>e \<in> set (outEdges (state_store l ! s)).
         e < length (edge_store l) \<and>
         ((dest (edge_store l ! e) \<in> set (states l) \<and> pred_ok l s (dest (edge_store l ! e))) \<or>
          (dest (edge_store l ! e) \<in> set Q0 \<and>
           inEdges (state_store l ! dest (edge_store l ! e)) = [e] \<and>
           core ` set (itemSet (state_store l ! dest (edge_store l ! e))) \<subseteq>
             seed_cores (itemSet (state_store l ! s))) \<or>
          (dest (edge_store l ! e) = q \<and> inEdges (state_store l ! q) = [e] \<and> pred_ok l s q))) \<and>
      graph_queue l (Q0 @ R) \<and>
      (\<forall>e \<in> set (inEdges (state_store l ! q)). e < length (edge_store l) \<and> dest (edge_store l ! e) = q) \<and>
      (\<forall>e \<in> set (outEdges (state_store l ! q)).
         e < length (edge_store l) \<and> dest (edge_store l ! e) \<in> set R \<and>
         inEdges (state_store l ! dest (edge_store l ! e)) = [e] \<and>
         core ` set (itemSet (state_store l ! dest (edge_store l ! e))) \<subseteq>
           seed_cores (itemSet (state_store l ! q))) \<and>
      (\<forall>s \<in> (if states l = [] then {q} else {states l ! 0}).
         \<forall>it \<in> set (itemSet (state_store l ! s)). pos it = 0) \<and>
      (\<forall>s \<in> set (states l) \<union> set Q0 \<union> set R \<union> {q}.
         \<forall>it \<in> set (itemSet (state_store l ! s)). rule it \<in> set (rules l)) \<and>
      q \<notin> set (states l) \<and> q \<notin> set Q0 \<and> q \<notin> set R \<and>
      set Q0 \<inter> set (states l) = {} \<and> set R \<inter> set (states l) = {} \<and>
      q < length (state_store l) \<and>
      state_wf (state_store l ! q) \<and> (\<forall>s \<in> set (states l). state_wf (state_store l ! s)))"

lemma graph_mid_calcItemSet:
  assumes ainv: "automaton_inv lr Q" and ginv: "graph_inv lr Q" and ne: "Q \<noteq> []"
    and run: "calcItemSet lr (last Q) = Some (Inr (lr1, R))"
  shows "graph_mid lr1 (butlast Q) (last Q) R \<and> states lr1 = states lr"
proof -
  let ?q = "last Q"
  let ?Q0 = "butlast Q"
  let ?n = "length (state_store lr)"
  let ?m = "length (edge_store lr)"
  from ne have qQ: "?q \<in> set Q" by simp
  from ainv have bnd: "\<And>s. s \<in> set (states lr) \<union> set Q \<Longrightarrow> s < ?n"
    and wf: "\<And>s. s \<in> set (states lr) \<union> set Q \<Longrightarrow> state_wf (state_store lr ! s)"
    and dQ: "distinct Q" and disj: "set Q \<inter> set (states lr) = {}"
    unfolding automaton_inv_def by blast+
  from ginv have J1: "graph_index lr" and J2: "graph_edges lr Q" and J3: "graph_queue lr Q"
    and J4: "graph_init lr Q" and J5: "graph_rules lr Q"
    unfolding graph_inv_def by blast+
  from qQ bnd have qn: "?q < ?n" by blast
  from qQ disj have qs: "?q \<notin> set (states lr)" by blast
  from J3 qQ have noout: "outEdges (state_store lr ! ?q) = []"
    and qin: "\<And>e. e \<in> set (inEdges (state_store lr ! ?q)) \<Longrightarrow>
        e < ?m \<and> dest (edge_store lr ! e) = ?q"
    unfolding graph_queue_def by blast+
  note fr = calcItemSet_frame [OF run qn]
  note cg = calcItemSet_graph [OF run qn noout]
  from fr have st1: "states lr1 = states lr" and ru1: "rules lr1 = rules lr" by blast+
  from fr have R: "R = [?n ..< length (state_store lr1)]" by blast
  from fr have n1: "?n \<le> length (state_store lr1)" by blast
  from cg have m1: "?m \<le> length (edge_store lr1)" by blast
  from cg have len1: "length (state_store lr1) = ?n + (length (edge_store lr1) - ?m)" by blast
  from cg have eo: "\<And>e. e < ?m \<Longrightarrow> edge_store lr1 ! e = edge_store lr ! e" by blast
  from cg have en: "\<And>e. ?m \<le> e \<Longrightarrow> e < length (edge_store lr1) \<Longrightarrow>
      dest (edge_store lr1 ! e) = ?n + (e - ?m)" by blast
  from cg have so: "\<And>a. a < ?n \<Longrightarrow> a \<noteq> ?q \<Longrightarrow> state_store lr1 ! a = state_store lr ! a"
    by blast
  from cg have qout: "outEdges (state_store lr1 ! ?q) = [?m ..< length (edge_store lr1)]" by blast
  from cg have qin1: "inEdges (state_store lr1 ! ?q) = inEdges (state_store lr ! ?q)" by blast
  from cg have sn: "\<And>a. ?n \<le> a \<Longrightarrow> a < length (state_store lr1) \<Longrightarrow>
        inEdges (state_store lr1 ! a) = [?m + (a - ?n)] \<and>
        outEdges (state_store lr1 ! a) = [] \<and>
        core ` set (itemSet (state_store lr1 ! a)) \<subseteq> seed_cores (itemSet (state_store lr1 ! ?q))"
    by blast
  from cg have qit: "\<And>it. it \<in> set (itemSet (state_store lr1 ! ?q)) \<Longrightarrow>
        core it \<in> core ` set (itemSet (state_store lr ! ?q)) \<or>
        (pos it = 0 \<and> rule it \<in> set (rules lr))" by blast
  have Rb: "\<And>a. a \<in> set R \<Longrightarrow> ?n \<le> a \<and> a < length (state_store lr1)"
    unfolding R by simp
  have bQ: "set ?Q0 \<subseteq> set Q" by (meson in_set_butlastD subsetI)
  have qbQ: "?q \<notin> set ?Q0"
    using dQ ne by (metis append_butlast_last_id distinct_append disjoint_iff list.set_intros(1))
  have QQ0: "\<And>d. d \<in> set Q \<Longrightarrow> d \<noteq> ?q \<Longrightarrow> d \<in> set ?Q0"
    using ne by (metis append_butlast_last_id in_set_conv_decomp_last last_snoc rotate1.simps(2) set_ConsD set_rotate1)
  have sold: "state_store lr1 ! a = state_store lr ! a"
    if "a \<in> set (states lr) \<union> set ?Q0" for a
  proof -
    from that bQ have m: "a \<in> set (states lr) \<union> set Q" by auto
    from that qs qbQ have "a \<noteq> ?q" by auto
    with so [OF bnd [OF m]] show ?thesis by simp
  qed
  have pk: "pred_ok lr1 s d = pred_ok lr s d"
    if "s \<in> set (states lr)" "d \<in> set (states lr)" for s d
    unfolding pred_ok_def using sold that by simp
  have M1: "graph_index lr1"
    unfolding graph_index_def st1
  proof (intro allI impI)
    fix i assume i: "i < length (states lr)"
    then have "states lr ! i \<in> set (states lr)" by simp
    then have "state_store lr1 ! (states lr ! i) = state_store lr ! (states lr ! i)"
      using sold by simp
    with J1 i show "state_index (state_store lr1 ! (states lr ! i)) = int i"
      by (simp add: graph_index_def)
  qed
  have M2: "e < length (edge_store lr1) \<and>
         ((dest (edge_store lr1 ! e) \<in> set (states lr1) \<and> pred_ok lr1 s (dest (edge_store lr1 ! e))) \<or>
          (dest (edge_store lr1 ! e) \<in> set ?Q0 \<and>
           inEdges (state_store lr1 ! dest (edge_store lr1 ! e)) = [e] \<and>
           core ` set (itemSet (state_store lr1 ! dest (edge_store lr1 ! e))) \<subseteq>
             seed_cores (itemSet (state_store lr1 ! s))) \<or>
          (dest (edge_store lr1 ! e) = ?q \<and> inEdges (state_store lr1 ! ?q) = [e] \<and> pred_ok lr1 s ?q))"
    if s: "s \<in> set (states lr1)" and e: "e \<in> set (outEdges (state_store lr1 ! s))" for s e
  proof -
    from s st1 have s0: "s \<in> set (states lr)" by simp
    then have ss: "state_store lr1 ! s = state_store lr ! s" using sold by simp
    with e have e0: "e \<in> set (outEdges (state_store lr ! s))" by simp
    from J2 s0 e0 have em: "e < ?m" and alt:
      "(dest (edge_store lr ! e) \<in> set (states lr) \<and> pred_ok lr s (dest (edge_store lr ! e))) \<or>
       (dest (edge_store lr ! e) \<in> set Q \<and>
        inEdges (state_store lr ! dest (edge_store lr ! e)) = [e] \<and>
        core ` set (itemSet (state_store lr ! dest (edge_store lr ! e))) \<subseteq>
          seed_cores (itemSet (state_store lr ! s)))"
      unfolding graph_edges_def by blast+
    from em m1 have b: "e < length (edge_store lr1)" by simp
    let ?d = "dest (edge_store lr ! e)"
    have ed: "dest (edge_store lr1 ! e) = ?d" using eo [OF em] by simp
    from alt show ?thesis
    proof
      assume a: "?d \<in> set (states lr) \<and> pred_ok lr s ?d"
      with pk [OF s0] st1 b ed show ?thesis by simp
    next
      assume a: "?d \<in> set Q \<and> inEdges (state_store lr ! ?d) = [e] \<and>
        core ` set (itemSet (state_store lr ! ?d)) \<subseteq> seed_cores (itemSet (state_store lr ! s))"
      show ?thesis
      proof (cases "?d = ?q")
        case False
        with a QQ0 have dq: "?d \<in> set ?Q0" by blast
        then have "state_store lr1 ! ?d = state_store lr ! ?d" using sold by simp
        with a dq ss b ed show ?thesis by simp
      next
        case True
        have "pred_ok lr1 s ?q"
          unfolding pred_ok_def
        proof (intro ballI impI)
          fix it assume it: "it \<in> set (itemSet (state_store lr1 ! ?q))" and p: "0 < pos it"
          from qit [OF it] p have "core it \<in> core ` set (itemSet (state_store lr ! ?q))" by simp
          with a True have "core it \<in> seed_cores (itemSet (state_store lr ! s))" by auto
          then show "core it \<in> seed_cores (itemSet (state_store lr1 ! s))" using ss by simp
        qed
        with a True qin1 b ed show ?thesis by simp
      qed
    qed
  qed
  have M3: "graph_queue lr1 (?Q0 @ R)"
    unfolding graph_queue_def
  proof (intro ballI conjI)
    fix d assume d: "d \<in> set (?Q0 @ R)"
    show "outEdges (state_store lr1 ! d) = []"
    proof (cases "d \<in> set R")
      case True
      from Rb [OF True] sn show ?thesis by simp
    next
      case False
      with d have d0: "d \<in> set ?Q0" by simp
      with sold have "state_store lr1 ! d = state_store lr ! d" by simp
      moreover from d0 bQ J3 have "outEdges (state_store lr ! d) = []"
        unfolding graph_queue_def by blast
      ultimately show ?thesis by simp
    qed
  next
    fix d e assume d: "d \<in> set (?Q0 @ R)" and e: "e \<in> set (inEdges (state_store lr1 ! d))"
    show "e < length (edge_store lr1)" and "dest (edge_store lr1 ! e) = d"
    proof -
      have "e < length (edge_store lr1) \<and> dest (edge_store lr1 ! e) = d"
      proof (cases "d \<in> set R")
        case True
        from Rb [OF True] have r: "?n \<le> d" "d < length (state_store lr1)" by simp_all
        from sn [OF r] e have ee: "e = ?m + (d - ?n)" by simp
        from r len1 have "?m + (d - ?n) < length (edge_store lr1)" by simp
        with en [of "?m + (d - ?n)"] ee r show ?thesis by simp
      next
        case False
        with d have d0: "d \<in> set ?Q0" by simp
        with sold have "state_store lr1 ! d = state_store lr ! d" by simp
        with e have e0: "e \<in> set (inEdges (state_store lr ! d))" by simp
        from d0 bQ J3 e0 have "e < ?m \<and> dest (edge_store lr ! e) = d"
          unfolding graph_queue_def by blast
        with eo [of e] m1 show ?thesis by simp
      qed
      then show "e < length (edge_store lr1)" and "dest (edge_store lr1 ! e) = d" by simp_all
    qed
  qed
  have M4: "e < length (edge_store lr1) \<and> dest (edge_store lr1 ! e) = ?q"
    if "e \<in> set (inEdges (state_store lr1 ! ?q))" for e
  proof -
    from that qin1 have "e \<in> set (inEdges (state_store lr ! ?q))" by simp
    from qin [OF this] eo [of e] m1 show ?thesis by simp
  qed
  have M5: "e < length (edge_store lr1) \<and> dest (edge_store lr1 ! e) \<in> set R \<and>
         inEdges (state_store lr1 ! dest (edge_store lr1 ! e)) = [e] \<and>
         core ` set (itemSet (state_store lr1 ! dest (edge_store lr1 ! e))) \<subseteq>
           seed_cores (itemSet (state_store lr1 ! ?q))"
    if "e \<in> set (outEdges (state_store lr1 ! ?q))" for e
  proof -
    from that qout have r: "?m \<le> e" "e < length (edge_store lr1)" by simp_all
    from en [OF r] have d: "dest (edge_store lr1 ! e) = ?n + (e - ?m)" .
    from r len1 have dr: "?n \<le> ?n + (e - ?m)" "?n + (e - ?m) < length (state_store lr1)"
      by simp_all
    then have "?n + (e - ?m) \<in> set R" unfolding R by simp
    with sn [OF dr] r d show ?thesis by simp
  qed
  have M6: "pos it = 0"
    if "s \<in> (if states lr1 = [] then {?q} else {states lr1 ! 0})"
      "it \<in> set (itemSet (state_store lr1 ! s))" for s it
  proof (cases "states lr = []")
    case True
    with that st1 have s: "s = ?q" by simp
    from J4 True qQ have z: "\<And>x. x \<in> set (itemSet (state_store lr ! ?q)) \<Longrightarrow> pos x = 0"
      unfolding graph_init_def by simp
    from that(2) s have "it \<in> set (itemSet (state_store lr1 ! ?q))" by simp
    from qit [OF this] have
      "core it \<in> core ` set (itemSet (state_store lr ! ?q)) \<or> pos it = 0" by auto
    then show ?thesis
    proof
      assume "core it \<in> core ` set (itemSet (state_store lr ! ?q))"
      then obtain x where "x \<in> set (itemSet (state_store lr ! ?q))" "core it = core x" by blast
      with z [of x] show ?thesis by (simp add: core_def)
    qed simp
  next
    case False
    with that st1 have s: "s = states lr ! 0" by simp
    from False have "states lr ! 0 \<in> set (states lr)" by (simp add: nth_mem)
    then have "state_store lr1 ! (states lr ! 0) = state_store lr ! (states lr ! 0)"
      using sold by simp
    with J4 False that(2) s show ?thesis unfolding graph_init_def by simp
  qed
  have qrule: "rule it \<in> set (rules lr)" if "it \<in> set (itemSet (state_store lr1 ! ?q))" for it
  proof -
    from qit [OF that] show ?thesis
    proof
      assume "core it \<in> core ` set (itemSet (state_store lr ! ?q))"
      then obtain x where x: "x \<in> set (itemSet (state_store lr ! ?q))" and c: "core it = core x"
        by blast
      from J5 qQ x have "rule x \<in> set (rules lr)" unfolding graph_rules_def by blast
      with c show ?thesis by (simp add: core_def)
    qed simp
  qed
  have M7: "rule it \<in> set (rules lr1)"
    if s: "s \<in> set (states lr1) \<union> set ?Q0 \<union> set R \<union> {?q}"
      and it: "it \<in> set (itemSet (state_store lr1 ! s))" for s it
  proof -
    consider "s = ?q" | "s \<in> set R" | "s \<in> set (states lr) \<union> set ?Q0"
      using s st1 by auto
    then show ?thesis
    proof cases
      case 1
      with it qrule ru1 show ?thesis by simp
    next
      case 2
      from Rb [OF 2] sn it have "core it \<in> seed_cores (itemSet (state_store lr1 ! ?q))" by blast
      then obtain x where "x \<in> set (itemSet (state_store lr1 ! ?q))" "rule it = rule x"
        by (auto simp: seed_cores_def core_def)
      with qrule ru1 show ?thesis by simp
    next
      case 3
      with sold it have "it \<in> set (itemSet (state_store lr ! s))" by simp
      moreover from 3 bQ have "s \<in> set (states lr) \<union> set Q" by auto
      ultimately have "rule it \<in> set (rules lr)" using J5 unfolding graph_rules_def by blast
      with ru1 show ?thesis by simp
    qed
  qed
  have sepR: "?q \<notin> set R" using Rb qn by fastforce
  have sepRs: "set R \<inter> set (states lr1) = {}"
  proof -
    have "s < ?n" if "s \<in> set (states lr1)" for s using that st1 bnd by simp
    with Rb show ?thesis by fastforce
  qed
  have sepQ: "set ?Q0 \<inter> set (states lr1) = {}" using disj bQ st1 by auto
  have q1: "?q < length (state_store lr1)" using qn n1 by simp
  have wq: "state_wf (state_store lr1 ! ?q)" using fr wf qQ by blast
  have ws: "state_wf (state_store lr1 ! s)" if "s \<in> set (states lr1)" for s
  proof -
    from that st1 have "s \<in> set (states lr) \<union> set ?Q0" by simp
    from sold [OF this] wf that st1 show ?thesis by simp
  qed
  from qs st1 have qs1: "?q \<notin> set (states lr1)" by simp
  show ?thesis
    unfolding graph_mid_def
    using M1 M2 M3 M4 M5 M6 M7 qs1 qbQ sepR sepQ sepRs q1 wq ws st1
    by blast
qed

lemma pred_ok_itemSet:
  "(\<And>a. itemSet (state_store l2 ! a) = itemSet (state_store l ! a)) \<Longrightarrow>
     pred_ok l2 s t = pred_ok l s t"
  by (simp add: pred_ok_def)

lemma graph_mid_admit:
  assumes mid: "graph_mid l Q0 q R"
    and none: "addState_find (states l) q l = None"
  shows "fst (addState l q) \<and> graph_inv (snd (addState l q)) (Q0 @ R)"
proof -
  let ?l2 = "l\<lparr>state_store := (state_store l)[q := (state_store l ! q)
                   \<lparr>state_index := int (length (states l))\<rparr>],
              states := states l @ [q]\<rparr>"
  from none have as: "addState l q = (True, ?l2)" by (simp add: addState_def)
  from mid have M1: "graph_index l"
    and M2: "\<And>s e. s \<in> set (states l) \<Longrightarrow> e \<in> set (outEdges (state_store l ! s)) \<Longrightarrow>
         e < length (edge_store l) \<and>
         ((dest (edge_store l ! e) \<in> set (states l) \<and> pred_ok l s (dest (edge_store l ! e))) \<or>
          (dest (edge_store l ! e) \<in> set Q0 \<and>
           inEdges (state_store l ! dest (edge_store l ! e)) = [e] \<and>
           core ` set (itemSet (state_store l ! dest (edge_store l ! e))) \<subseteq>
             seed_cores (itemSet (state_store l ! s))) \<or>
          (dest (edge_store l ! e) = q \<and> inEdges (state_store l ! q) = [e] \<and> pred_ok l s q))"
    and M3: "graph_queue l (Q0 @ R)"
    and M5: "\<And>e. e \<in> set (outEdges (state_store l ! q)) \<Longrightarrow>
         e < length (edge_store l) \<and> dest (edge_store l ! e) \<in> set R \<and>
         inEdges (state_store l ! dest (edge_store l ! e)) = [e] \<and>
         core ` set (itemSet (state_store l ! dest (edge_store l ! e))) \<subseteq>
           seed_cores (itemSet (state_store l ! q))"
    and M6: "\<And>s it. s \<in> (if states l = [] then {q} else {states l ! 0}) \<Longrightarrow>
         it \<in> set (itemSet (state_store l ! s)) \<Longrightarrow> pos it = 0"
    and M7: "\<And>s it. s \<in> set (states l) \<union> set Q0 \<union> set R \<union> {q} \<Longrightarrow>
         it \<in> set (itemSet (state_store l ! s)) \<Longrightarrow> rule it \<in> set (rules l)"
    and qs: "q \<notin> set (states l)" and qn: "q < length (state_store l)"
    unfolding graph_mid_def by blast+
  have st2: "states ?l2 = states l @ [q]" by simp
  have ed2: "edge_store ?l2 = edge_store l" by simp
  have ru2: "rules ?l2 = rules l" by simp
  have it2: "itemSet (state_store ?l2 ! a) = itemSet (state_store l ! a)" for a
    using qn by (cases "a = q") simp_all
  have ou2: "outEdges (state_store ?l2 ! a) = outEdges (state_store l ! a)" for a
    using qn by (cases "a = q") simp_all
  have in2: "inEdges (state_store ?l2 ! a) = inEdges (state_store l ! a)" for a
    using qn by (cases "a = q") simp_all
  have ix2: "state_index (state_store ?l2 ! a) =
      (if a = q then int (length (states l)) else state_index (state_store l ! a))" for a
    using qn by (cases "a = q") simp_all
  have pk: "pred_ok ?l2 s t = pred_ok l s t" for s t
    by (rule pred_ok_itemSet) (rule it2)
  have G1: "graph_index ?l2"
    unfolding graph_index_def st2
  proof (intro allI impI)
    fix i assume i: "i < length (states l @ [q])"
    show "state_index (state_store ?l2 ! ((states l @ [q]) ! i)) = int i"
    proof (cases "i < length (states l)")
      case True
      then have e: "(states l @ [q]) ! i = states l ! i" by (simp add: nth_append)
      from True have "states l ! i \<in> set (states l)" by simp
      with qs have "states l ! i \<noteq> q" by auto
      with M1 True e show ?thesis unfolding ix2 graph_index_def by simp
    next
      case False
      with i have ii: "i = length (states l)" by simp
      then have "(states l @ [q]) ! i = q" by simp
      then show ?thesis unfolding ix2 using ii by simp
    qed
  qed
  have G2: "graph_edges ?l2 (Q0 @ R)"
    unfolding graph_edges_def st2 ed2 ou2 in2 it2 pk
  proof (intro ballI)
    fix s e assume s: "s \<in> set (states l @ [q])" and e: "e \<in> set (outEdges (state_store l ! s))"
    show "e < length (edge_store l) \<and>
        ((dest (edge_store l ! e) \<in> set (states l @ [q]) \<and> pred_ok l s (dest (edge_store l ! e))) \<or>
         (dest (edge_store l ! e) \<in> set (Q0 @ R) \<and>
          inEdges (state_store l ! dest (edge_store l ! e)) = [e] \<and>
          core ` set (itemSet (state_store l ! dest (edge_store l ! e))) \<subseteq>
            seed_cores (itemSet (state_store l ! s))))"
    proof (cases "s = q")
      case True
      with M5 [of e] e show ?thesis by simp
    next
      case False
      with s have "s \<in> set (states l)" by simp
      from M2 [OF this e] show ?thesis by auto
    qed
  qed
  have G3: "graph_queue ?l2 (Q0 @ R)"
    using M3 unfolding graph_queue_def ed2 ou2 in2 .
  have G4: "graph_init ?l2 (Q0 @ R)"
    unfolding graph_init_def st2 it2
  proof (intro ballI)
    fix s it
    assume s: "s \<in> (if states l @ [q] = [] then set (Q0 @ R) else {(states l @ [q]) ! 0})"
      and it: "it \<in> set (itemSet (state_store l ! s))"
    from s have "s = (states l @ [q]) ! 0" by simp
    then have "s \<in> (if states l = [] then {q} else {states l ! 0})"
      by (cases "states l") simp_all
    from M6 [OF this it] show "pos it = 0" .
  qed
  have G5: "graph_rules ?l2 (Q0 @ R)"
    unfolding graph_rules_def st2 it2 ru2
  proof (intro ballI)
    fix s it
    assume s: "s \<in> set (states l @ [q]) \<union> set (Q0 @ R)"
      and it: "it \<in> set (itemSet (state_store l ! s))"
    from s have "s \<in> set (states l) \<union> set Q0 \<union> set R \<union> {q}" by auto
    from M7 [OF this it] show "rule it \<in> set (rules l)" .
  qed
  from G1 G2 G3 G4 G5 have "graph_inv ?l2 (Q0 @ R)" unfolding graph_inv_def by blast
  with as show ?thesis by simp
qed

lemma graph_mid_merge:
  assumes mid: "graph_mid l Q0 q R"
    and some: "addState_find (states l) q l = Some s'"
  shows "\<not> fst (addState l q) \<and> graph_inv (snd (addState l q)) Q0"
proof -
  let ?us = "inEdges (state_store l ! q)"
  let ?l2 = "redirect_inEdges ?us s' l"
  from some have as: "addState l q = (False, ?l2)" by (simp add: addState_def)
  from mid have M1: "graph_index l"
    and M2: "\<And>s e. s \<in> set (states l) \<Longrightarrow> e \<in> set (outEdges (state_store l ! s)) \<Longrightarrow>
         e < length (edge_store l) \<and>
         ((dest (edge_store l ! e) \<in> set (states l) \<and> pred_ok l s (dest (edge_store l ! e))) \<or>
          (dest (edge_store l ! e) \<in> set Q0 \<and>
           inEdges (state_store l ! dest (edge_store l ! e)) = [e] \<and>
           core ` set (itemSet (state_store l ! dest (edge_store l ! e))) \<subseteq>
             seed_cores (itemSet (state_store l ! s))) \<or>
          (dest (edge_store l ! e) = q \<and> inEdges (state_store l ! q) = [e] \<and> pred_ok l s q))"
    and M3: "graph_queue l (Q0 @ R)"
    and M4: "\<And>e. e \<in> set ?us \<Longrightarrow> e < length (edge_store l) \<and> dest (edge_store l ! e) = q"
    and M6: "\<And>s it. s \<in> (if states l = [] then {q} else {states l ! 0}) \<Longrightarrow>
         it \<in> set (itemSet (state_store l ! s)) \<Longrightarrow> pos it = 0"
    and M7: "\<And>s it. s \<in> set (states l) \<union> set Q0 \<union> set R \<union> {q} \<Longrightarrow>
         it \<in> set (itemSet (state_store l ! s)) \<Longrightarrow> rule it \<in> set (rules l)"
    and qs: "q \<notin> set (states l)" and qQ: "q \<notin> set Q0"
    and sepQ: "set Q0 \<inter> set (states l) = {}"
    and wq: "state_wf (state_store l ! q)"
    and ws: "\<And>s. s \<in> set (states l) \<Longrightarrow> state_wf (state_store l ! s)"
    unfolding graph_mid_def by blast+
  from addState_find_Some [OF some] have s's: "s' \<in> set (states l)"
    and eq: "state_equal (state_store l ! s') (state_store l ! q)" by simp_all
  from state_equal_cores [OF ws [OF s's] wq eq]
  have cores: "core ` set (itemSet (state_store l ! s')) = core ` set (itemSet (state_store l ! q))" .
  note rg = redirect_inEdges_graph [of ?us s' l]
  note rf = redirect_inEdges_frame [of ?us s' l]
  from rf have st2: "states ?l2 = states l" by blast
  from rf have it2: "\<And>a. itemSet (state_store ?l2 ! a) = itemSet (state_store l ! a)" by blast
  from rg have ed2: "length (edge_store ?l2) = length (edge_store l)" by blast
  from rg have ru2: "rules ?l2 = rules l" by blast
  from rg have eo: "\<And>e. e \<notin> set ?us \<Longrightarrow> edge_store ?l2 ! e = edge_store l ! e" by blast
  from rg M4 have en: "\<And>e. e \<in> set ?us \<Longrightarrow> dest (edge_store ?l2 ! e) = s'" by blast
  from rg have so: "\<And>a. a \<noteq> s' \<Longrightarrow> state_store ?l2 ! a = state_store l ! a" by blast
  from rg have ou': "outEdges (state_store ?l2 ! s') = outEdges (state_store l ! s')" by blast
  from rg have ix': "state_index (state_store ?l2 ! s') = state_index (state_store l ! s')" by blast
  have ou2: "outEdges (state_store ?l2 ! a) = outEdges (state_store l ! a)" for a
    using ou' so [of a] by (cases "a = s'") simp_all
  have ix2: "state_index (state_store ?l2 ! a) = state_index (state_store l ! a)" for a
    using ix' so [of a] by (cases "a = s'") simp_all
  have pk: "pred_ok ?l2 s t = pred_ok l s t" for s t
    by (rule pred_ok_itemSet) (rule it2)
  have Qs': "d \<noteq> s'" if "d \<in> set Q0" for d using that sepQ s's by auto
  have G1: "graph_index ?l2"
    using M1 unfolding graph_index_def st2 ix2 .
  have G2: "graph_edges ?l2 Q0"
    unfolding graph_edges_def st2 ed2 ou2 it2 pk
  proof (intro ballI)
    fix s e assume s: "s \<in> set (states l)" and e: "e \<in> set (outEdges (state_store l ! s))"
    let ?d = "dest (edge_store l ! e)"
    let ?d2 = "dest (edge_store ?l2 ! e)"
    from M2 [OF s e] have b: "e < length (edge_store l)" and alt:
      "(?d \<in> set (states l) \<and> pred_ok l s ?d) \<or>
       (?d \<in> set Q0 \<and> inEdges (state_store l ! ?d) = [e] \<and>
        core ` set (itemSet (state_store l ! ?d)) \<subseteq> seed_cores (itemSet (state_store l ! s))) \<or>
       (?d = q \<and> inEdges (state_store l ! q) = [e] \<and> pred_ok l s q)"
      by blast+
    from alt have
      "(?d2 \<in> set (states l) \<and> pred_ok l s ?d2) \<or>
         (?d2 \<in> set Q0 \<and> inEdges (state_store ?l2 ! ?d2) = [e] \<and>
          core ` set (itemSet (state_store l ! ?d2)) \<subseteq> seed_cores (itemSet (state_store l ! s)))"
    proof (elim disjE)
      assume a: "?d \<in> set (states l) \<and> pred_ok l s ?d"
      have "e \<notin> set ?us"
      proof
        assume "e \<in> set ?us"
        from M4 [OF this] a qs show False by simp
      qed
      from eo [OF this] a show ?thesis by simp
    next
      assume a: "?d \<in> set Q0 \<and> inEdges (state_store l ! ?d) = [e] \<and>
        core ` set (itemSet (state_store l ! ?d)) \<subseteq> seed_cores (itemSet (state_store l ! s))"
      have "e \<notin> set ?us"
      proof
        assume "e \<in> set ?us"
        from M4 [OF this] a qQ show False by simp
      qed
      from eo [OF this] have d: "?d2 = ?d" by simp
      from a Qs' have "?d \<noteq> s'" by blast
      from so [OF this] a d show ?thesis by simp
    next
      assume a: "?d = q \<and> inEdges (state_store l ! q) = [e] \<and> pred_ok l s q"
      then have "e \<in> set ?us" by simp
      from en [OF this] have d: "?d2 = s'" .
      have "pred_ok l s s'"
        unfolding pred_ok_def
      proof (intro ballI impI)
        fix it assume it: "it \<in> set (itemSet (state_store l ! s'))" and p: "0 < pos it"
        from it cores have "core it \<in> core ` set (itemSet (state_store l ! q))" by blast
        then obtain x where x: "x \<in> set (itemSet (state_store l ! q))" and c: "core it = core x"
          by blast
        from c p have "0 < pos x" by (simp add: core_def)
        with a x have "core x \<in> seed_cores (itemSet (state_store l ! s))"
          unfolding pred_ok_def by blast
        with c show "core it \<in> seed_cores (itemSet (state_store l ! s))" by simp
      qed
      with d s's show ?thesis by simp
    qed
    with b show "e < length (edge_store l) \<and>
        ((?d2 \<in> set (states l) \<and> pred_ok l s ?d2) \<or>
         (?d2 \<in> set Q0 \<and> inEdges (state_store ?l2 ! ?d2) = [e] \<and>
          core ` set (itemSet (state_store l ! ?d2)) \<subseteq> seed_cores (itemSet (state_store l ! s))))"
      by blast
  qed
  have G3: "graph_queue ?l2 Q0"
    unfolding graph_queue_def ed2 ou2
  proof (intro ballI conjI)
    fix d assume d: "d \<in> set Q0"
    with M3 show "outEdges (state_store l ! d) = []" unfolding graph_queue_def by auto
  next
    fix d e assume d: "d \<in> set Q0" and e: "e \<in> set (inEdges (state_store ?l2 ! d))"
    from so [OF Qs' [OF d]] e have e0: "e \<in> set (inEdges (state_store l ! d))" by simp
    with M3 d have r: "e < length (edge_store l) \<and> dest (edge_store l ! e) = d"
      unfolding graph_queue_def by auto
    have "e \<notin> set ?us"
    proof
      assume "e \<in> set ?us"
      from M4 [OF this] r d qQ show False by simp
    qed
    from eo [OF this] r show "e < length (edge_store l)" and "dest (edge_store ?l2 ! e) = d"
      by simp_all
  qed
  from s's have nonempty: "states l \<noteq> []" by auto
  have G4: "graph_init ?l2 Q0"
    unfolding graph_init_def st2 it2 using M6 nonempty by simp
  have G5: "graph_rules ?l2 Q0"
    unfolding graph_rules_def st2 it2 ru2
  proof (intro ballI)
    fix s it
    assume s: "s \<in> set (states l) \<union> set Q0" and it: "it \<in> set (itemSet (state_store l ! s))"
    from s have "s \<in> set (states l) \<union> set Q0 \<union> set R \<union> {q}" by auto
    from M7 [OF this it] show "rule it \<in> set (rules l)" .
  qed
  from G1 G2 G3 G4 G5 have "graph_inv ?l2 Q0" unfolding graph_inv_def by blast
  with as show ?thesis by simp
qed

lemma graph_inv_step:
  assumes ainv: "automaton_inv lr Q" and ginv: "graph_inv lr Q" and ne: "Q \<noteq> []"
    and run: "calcItemSet lr (last Q) = Some (Inr (lr1, R))"
  shows "graph_inv (snd (addState lr1 (last Q)))
           (if fst (addState lr1 (last Q)) then butlast Q @ R else butlast Q)"
proof -
  from graph_mid_calcItemSet [OF ainv ginv ne run]
  have mid: "graph_mid lr1 (butlast Q) (last Q) R" by simp
  show ?thesis
  proof (cases "addState_find (states lr1) (last Q) lr1")
    case None
    from graph_mid_admit [OF mid None] show ?thesis by simp
  next
    case (Some s')
    from graph_mid_merge [OF mid Some] show ?thesis by simp
  qed
qed

lemma addState_rules: "rules (snd (addState l q)) = rules l"
  using redirect_inEdges_graph [of "inEdges (state_store l ! q)" _ l]
  by (simp add: addState_def split: option.splits)

lemma calcTable_loop_graph:
  assumes "calcTable_loop lr Q = Some res"
  shows "automaton_inv lr Q \<and> graph_inv lr Q \<longrightarrow>
     (\<forall>lr'. res = Inr lr' \<longrightarrow> graph_inv lr' [] \<and> rules lr' = rules lr)"
proof (rule calcTable_loop.raw_induct [OF _ assms])
  fix f lr Q res
  assume ih: "\<And>lr Q res. f lr Q = Some res \<Longrightarrow>
      automaton_inv lr Q \<and> graph_inv lr Q \<longrightarrow>
        (\<forall>lr'. res = Inr lr' \<longrightarrow> graph_inv lr' [] \<and> rules lr' = rules lr)"
    and eq: "(if Q = [] then Some (Inr lr)
      else (case calcItemSet lr (last Q) of
              None \<Rightarrow> None
            | Some (Inl e) \<Rightarrow> Some (Inl e)
            | Some (Inr lrR) \<Rightarrow>
                if fst (addState (fst lrR) (last Q))
                then f (snd (addState (fst lrR) (last Q))) (butlast Q @ snd lrR)
                else f (snd (addState (fst lrR) (last Q))) (butlast Q))) = Some res"
  show "automaton_inv lr Q \<and> graph_inv lr Q \<longrightarrow>
     (\<forall>lr'. res = Inr lr' \<longrightarrow> graph_inv lr' [] \<and> rules lr' = rules lr)"
  proof (intro impI allI)
    fix lr'
    assume both: "automaton_inv lr Q \<and> graph_inv lr Q" and res: "res = Inr lr'"
    then have inv: "automaton_inv lr Q" and ginv: "graph_inv lr Q" by simp_all
    show "graph_inv lr' [] \<and> rules lr' = rules lr"
    proof (cases "Q = []")
      case True
      with eq res ginv show ?thesis by simp
    next
      case False
      from eq False res obtain lr1 R where
        run: "calcItemSet lr (last Q) = Some (Inr (lr1, R))"
        by (auto split: option.splits sum.splits)
      from False have "last Q \<in> set Q" by simp
      with inv have qn: "last Q < length (state_store lr)" unfolding automaton_inv_def by blast
      from calcItemSet_frame [OF run qn] have ru: "rules lr1 = rules lr" by blast
      note step = automaton_inv_step [OF inv False run]
      note gstep = graph_inv_step [OF inv ginv False run]
      show ?thesis
      proof (cases "fst (addState lr1 (last Q))")
        case True
        with eq False run have
          "f (snd (addState lr1 (last Q))) (butlast Q @ R) = Some res" by simp
        from ih [OF this] step gstep True res ru addState_rules [of lr1 "last Q"]
        show ?thesis by simp
      next
        case F: False
        with eq False run have
          "f (snd (addState lr1 (last Q))) (butlast Q) = Some res" by simp
        from ih [OF this] step gstep F res ru addState_rules [of lr1 "last Q"]
        show ?thesis by simp
      qed
    qed
  qed
qed

lemma graph_inv_table: "graph_inv (l\<lparr>table := t\<rparr>) Q = graph_inv l Q"
  unfolding graph_inv_def graph_index_def graph_edges_def graph_queue_def graph_init_def
    graph_rules_def pred_ok_def
  by simp

lemma calcTable_graph:
  assumes run: "calcTable lr = Some (Inr tbl, lr')" and fresh: "states lr = []"
  shows "graph_inv lr' [] \<and> rules lr' = assign_indices (rules lr)"
proof -
  let ?s0 = "snd (addItem new_LR1_State
      \<lparr>pos = 0, lookAheadSet = set_add ''END'' [], rule = hd (assign_indices (rules lr))\<rparr>)"
  from run obtain fm lr1 where
    loop: "calcTable_loop
             (lr\<lparr>first := fm, rules := assign_indices (rules lr),
                 state_store := state_store lr @ [?s0]\<rparr>)
             [length (state_store lr)] = Some (Inr lr1)"
    and fin: "lr' = lr1\<lparr>table := Some tbl\<rparr>"
    and ne: "rules lr \<noteq> []"
    unfolding calcTable_def
    by (auto split: if_splits option.splits sum.splits)
  let ?lr0 = "lr\<lparr>first := fm, rules := assign_indices (rules lr),
                 state_store := state_store lr @ [?s0]\<rparr>"
  have s0: "?s0 = \<lparr>state_index = -1,
      itemSet = [\<lparr>pos = 0, lookAheadSet = set_add ''END'' [], rule = hd (assign_indices (rules lr))\<rparr>],
      outEdges = [], inEdges = []\<rparr>"
    by (simp add: addItem_def new_LR1_State_def)
  have wf0: "state_wf ?s0"
    by (simp add: state_wf_def addItem_def new_LR1_State_def core_unique_def la_wf_def set_add_def)
  have a0: "automaton_inv ?lr0 [length (state_store lr)]"
    unfolding automaton_inv_def using fresh wf0 by simp
  have "length (assign_indices (rules lr)) = length (rules lr)" by (simp add: assign_indices_def)
  with ne have "assign_indices (rules lr) \<noteq> []" by (metis length_0_conv)
  then have hdr: "hd (assign_indices (rules lr)) \<in> set (assign_indices (rules lr))" by simp
  have g0: "graph_inv ?lr0 [length (state_store lr)]"
    unfolding graph_inv_def graph_index_def graph_edges_def graph_queue_def graph_init_def
      graph_rules_def
    using fresh hdr by (simp add: s0)
  from calcTable_loop_graph [OF loop] a0 g0
  have "graph_inv lr1 [] \<and> rules lr1 = assign_indices (rules lr)" by simp
  then show ?thesis
    unfolding fin by (simp add: graph_inv_table)
qed


section \<open>The table against the automaton\<close>

lemma assign_indices_nth:
  assumes "r \<in> set (assign_indices rs)"
  shows "0 \<le> rule_index r \<and> nat (rule_index r) < length (assign_indices rs) \<and>
         assign_indices rs ! nat (rule_index r) = r"
proof -
  have len: "length (assign_indices rs) = length rs" by (simp add: assign_indices_def)
  from assms obtain i where i: "i < length (assign_indices rs)" and r: "assign_indices rs ! i = r"
    by (auto simp: in_set_conv_nth)
  from i len have i': "i < length rs" by simp
  then have "assign_indices rs ! i = (rs ! i)\<lparr>rule_index := int i\<rparr>"
    by (simp add: assign_indices_def nth_enumerate_eq)
  with r have "rule_index r = int i" by auto
  with i r show ?thesis by simp
qed

lemma shift_entries_of_mem:
  "(k, a) \<in> set (shift_entries_of lr es) \<Longrightarrow>
     shift a \<and> (\<exists>e \<in> set es. entry_value a = state_index (state_store lr ! dest (edge_store lr ! e)))"
  by (auto simp: shift_entries_of_def)

lemma goto_entries_of_mem:
  "(k, a) \<in> set (goto_entries_of lr es) \<Longrightarrow>
     (\<exists>e \<in> set es. entry_value a = state_index (state_store lr ! dest (edge_store lr ! e)))"
  by (auto simp: goto_entries_of_def)

lemma reduce_entries_of_mem:
  "(k, a) \<in> set (reduce_entries_of False items) \<Longrightarrow>
     \<not> shift a \<and> (\<exists>it \<in> set items. pos it = length (rhs (rule it)) \<and>
        entry_value a = rule_index (rule it))"
  by (auto simp: reduce_entries_of_def)

text \<open>
  The rows of a generated table, read against the automaton: a shift or goto entry names
  the index of an admitted state that is a successor of the state of the row, and a reduce
  entry names the index of the rule of a complete item of the state of the row.
\<close>

definition row_ok :: "LR1 \<Rightarrow> LR1_TableRow \<Rightarrow> nat \<Rightarrow> bool" where
  "row_ok lr row i =
     ((\<forall>k g. map_of (gotoEntries row) k = Some g \<longrightarrow>
         (\<exists>j < length (states lr). entry_value g = int j \<and>
            pred_ok lr (states lr ! i) (states lr ! j))) \<and>
      (\<forall>k a. map_of (actionEntries row) k = Some a \<longrightarrow>
         (if shift a
          then (\<exists>j < length (states lr). entry_value a = int j \<and>
                  pred_ok lr (states lr ! i) (states lr ! j))
          else (\<exists>it \<in> set (itemSet (state_store lr ! (states lr ! i))).
                  pos it = length (rhs (rule it)) \<and> entry_value a = rule_index (rule it)))))"

lemma graph_inv_edge:
  assumes g: "graph_inv lr []" and i: "i < length (states lr)"
    and e: "e \<in> set (outEdges (state_store lr ! (states lr ! i)))"
  shows "\<exists>j < length (states lr).
      state_index (state_store lr ! dest (edge_store lr ! e)) = int j \<and>
      pred_ok lr (states lr ! i) (states lr ! j)"
proof -
  from i have s: "states lr ! i \<in> set (states lr)" by simp
  from g have "graph_edges lr []" and ix: "graph_index lr" unfolding graph_inv_def by blast+
  with s e have d: "dest (edge_store lr ! e) \<in> set (states lr)"
    and p: "pred_ok lr (states lr ! i) (dest (edge_store lr ! e))"
    unfolding graph_edges_def by auto
  from d obtain j where j: "j < length (states lr)" and dj: "states lr ! j = dest (edge_store lr ! e)"
    by (auto simp: in_set_conv_nth)
  from ix j have "state_index (state_store lr ! (states lr ! j)) = int j"
    unfolding graph_index_def by simp
  with j dj p show ?thesis by auto
qed

lemma calcTable_row_ok:
  assumes g: "graph_inv lr []" and i: "i < length (states lr)"
    and row: "calcTable_row lr (state_store lr ! (states lr ! i)) = Inr row"
  shows "row_ok lr row i"
proof -
  let ?st = "state_store lr ! (states lr ! i)"
  from calcTable_row_Inr [OF row] have
    ae: "actionEntries row = shift_entries_of lr (outEdges ?st) @ reduce_entries_of False (itemSet ?st)"
    and ge: "gotoEntries row = goto_entries_of lr (outEdges ?st)" by simp_all
  show ?thesis
    unfolding row_ok_def
  proof (intro conjI allI impI)
    fix k g' assume "map_of (gotoEntries row) k = Some g'"
    then have "(k, g') \<in> set (goto_entries_of lr (outEdges ?st))"
      unfolding ge by (rule map_of_SomeD)
    from goto_entries_of_mem [OF this] obtain e where e: "e \<in> set (outEdges ?st)"
      and v: "entry_value g' = state_index (state_store lr ! dest (edge_store lr ! e))" by blast
    from graph_inv_edge [OF g i e] v
    show "\<exists>j < length (states lr). entry_value g' = int j \<and>
            pred_ok lr (states lr ! i) (states lr ! j)" by simp
  next
    fix k a assume "map_of (actionEntries row) k = Some a"
    then have "(k, a) \<in> set (shift_entries_of lr (outEdges ?st) @ reduce_entries_of False (itemSet ?st))"
      unfolding ae by (rule map_of_SomeD)
    then have "(k, a) \<in> set (shift_entries_of lr (outEdges ?st)) \<or>
        (k, a) \<in> set (reduce_entries_of False (itemSet ?st))" by simp
    then show "if shift a
          then (\<exists>j < length (states lr). entry_value a = int j \<and>
                  pred_ok lr (states lr ! i) (states lr ! j))
          else (\<exists>it \<in> set (itemSet ?st).
                  pos it = length (rhs (rule it)) \<and> entry_value a = rule_index (rule it))"
    proof
      assume "(k, a) \<in> set (shift_entries_of lr (outEdges ?st))"
      from shift_entries_of_mem [OF this] obtain e where sh: "shift a"
        and e: "e \<in> set (outEdges ?st)"
        and v: "entry_value a = state_index (state_store lr ! dest (edge_store lr ! e))" by blast
      from graph_inv_edge [OF g i e] v sh show ?thesis by simp
    next
      assume "(k, a) \<in> set (reduce_entries_of False (itemSet ?st))"
      from reduce_entries_of_mem [OF this] show ?thesis by simp
    qed
  qed
qed

lemma row_ok_table: "row_ok (l\<lparr>table := t\<rparr>) row i = row_ok l row i"
  unfolding row_ok_def pred_ok_def by simp

text \<open>What the parser relies on in a table that \<open>calcTable\<close> returned.\<close>

definition generated :: "LR1 \<Rightarrow> LR1_Table \<Rightarrow> bool" where
  "generated lr tbl =
     (length (rows tbl) = length (states lr) \<and>
      (\<forall>i < length (rows tbl). row_ok lr (rows tbl ! i) i) \<and>
      (states lr \<noteq> [] \<longrightarrow>
         (\<forall>it \<in> set (itemSet (state_store lr ! (states lr ! 0))). pos it = 0)) \<and>
      (\<forall>s \<in> set (states lr). \<forall>it \<in> set (itemSet (state_store lr ! s)).
         0 \<le> rule_index (rule it) \<and> nat (rule_index (rule it)) < length (rules lr) \<and>
         rules lr ! nat (rule_index (rule it)) = rule it))"

lemma calcTable_generated:
  assumes run: "calcTable lr = Some (Inr tbl, lr')" and fresh: "states lr = []"
  shows "generated lr' tbl"
proof -
  from calcTable_graph [OF run fresh] have g: "graph_inv lr' []"
    and ru: "rules lr' = assign_indices (rules lr)" by simp_all
  from calcTable_returns_rows [OF run] obtain lr2 where
    fin: "lr' = lr2\<lparr>table := Some tbl\<rparr>"
    and rws: "calcTable_rows lr2 (states lr2) [] = Inr (rows tbl)" by blast
  from g have g2: "graph_inv lr2 []" unfolding fin by (simp add: graph_inv_table)
  from calcTable_rows_char [OF rws] have
    len: "length (rows tbl) = length (states lr2)"
    and each: "\<And>i. i < length (states lr2) \<Longrightarrow>
      calcTable_row lr2 (state_store lr2 ! (states lr2 ! i)) = Inr (rows tbl ! i)"
    by simp_all
  have r1: "row_ok lr' (rows tbl ! i) i" if "i < length (rows tbl)" for i
  proof -
    from that len have i: "i < length (states lr2)" by simp
    from calcTable_row_ok [OF g2 i each [OF i]] show ?thesis
      unfolding fin by (simp add: row_ok_table)
  qed
  from g have gi: "graph_init lr' []" and gr: "graph_rules lr' []"
    unfolding graph_inv_def by blast+
  have r2: "states lr' \<noteq> [] \<longrightarrow>
      (\<forall>it \<in> set (itemSet (state_store lr' ! (states lr' ! 0))). pos it = 0)"
    using gi unfolding graph_init_def by simp
  have r3: "0 \<le> rule_index (rule it) \<and> nat (rule_index (rule it)) < length (rules lr') \<and>
         rules lr' ! nat (rule_index (rule it)) = rule it"
    if "s \<in> set (states lr')" "it \<in> set (itemSet (state_store lr' ! s))" for s it
  proof -
    from gr that have "rule it \<in> set (rules lr')" unfolding graph_rules_def by auto
    then have "rule it \<in> set (assign_indices (rules lr))" unfolding ru .
    from assign_indices_nth [OF this] show ?thesis unfolding ru .
  qed
  from len have len': "length (rows tbl) = length (states lr')" unfolding fin by simp
  from len' r1 r2 r3 show ?thesis unfolding generated_def by blast
qed


section \<open>The parse stack\<close>

text \<open>
  The state of the parser after \<open>n\<close> rounds of the loop \<^verbatim>\<open>for (;;)\<close> that all went on;
  \<open>None\<close> when the loop has ended before.
\<close>

fun parse_steps :: "LR1_Table \<Rightarrow> LR1_Rule list \<Rightarrow> 'u callbacks \<Rightarrow> nat \<Rightarrow> 'u parse_state \<Rightarrow> 'u parse_state option" where
  "parse_steps tbl rs cbs 0 ps = Some ps"
| "parse_steps tbl rs cbs (Suc n) ps =
     (case parse_step tbl rs cbs ps of
        Failed e \<Rightarrow> None
      | Finished ps' \<Rightarrow> None
      | Continue ps' \<Rightarrow> parse_steps tbl rs cbs n ps')"

lemma parse_loop_steps:
  "parse_steps tbl rs cbs n ps0 = Some ps \<Longrightarrow>
     parse_loop tbl rs cbs ps0 = parse_loop tbl rs cbs ps"
proof (induction n arbitrary: ps0)
  case 0
  then show ?case by simp
next
  case (Suc n)
  from Suc.prems obtain ps1 where c: "parse_step tbl rs cbs ps0 = Continue ps1"
    and r: "parse_steps tbl rs cbs n ps1 = Some ps"
    by (auto split: step_result.splits)
  from c have "parse_loop tbl rs cbs ps0 = parse_loop tbl rs cbs ps1"
    by (subst parse_loop.simps) simp
  with Suc.IH [OF r] show ?case by simp
qed

text \<open>
  The parse stack alternates state numbers and symbols, and the state at depth \<open>k\<close> has no
  item with the dot further than \<open>k\<close> places to the right.
\<close>

definition stack_inv :: "LR1 \<Rightarrow> stack_item list \<Rightarrow> bool" where
  "stack_inv lr stk =
     (\<exists>d. length stk = 2 * d + 1 \<and>
        (\<forall>k \<le> d. \<exists>i < length (states lr). stk ! (2 * k) = StateNumber (int i) \<and>
           (\<forall>it \<in> set (itemSet (state_store lr ! (states lr ! i))). pos it \<le> k)))"

lemma stack_inv_init:
  assumes "generated lr tbl" and "states lr \<noteq> []"
  shows "stack_inv lr [StateNumber 0]"
proof -
  from assms have z: "\<forall>it \<in> set (itemSet (state_store lr ! (states lr ! 0))). pos it = 0"
    unfolding generated_def by blast
  from assms(2) have l: "0 < length (states lr)" by simp
  have "length [StateNumber 0] = 2 * 0 + 1 \<and>
        (\<forall>k \<le> 0. \<exists>i < length (states lr). [StateNumber 0] ! (2 * k) = StateNumber (int i) \<and>
           (\<forall>it \<in> set (itemSet (state_store lr ! (states lr ! i))). pos it \<le> k))"
    using z l by auto
  then show ?thesis unfolding stack_inv_def by blast
qed

lemma stack_inv_top:
  assumes "stack_inv lr stk"
  shows "\<exists>d i. length stk = 2 * d + 1 \<and> last stk = StateNumber (int i) \<and>
           i < length (states lr) \<and>
           (\<forall>it \<in> set (itemSet (state_store lr ! (states lr ! i))). pos it \<le> d)"
proof -
  from assms obtain d where len: "length stk = 2 * d + 1"
    and all: "\<forall>k \<le> d. \<exists>i < length (states lr). stk ! (2 * k) = StateNumber (int i) \<and>
           (\<forall>it \<in> set (itemSet (state_store lr ! (states lr ! i))). pos it \<le> k)"
    unfolding stack_inv_def by blast
  from all obtain i where i: "i < length (states lr)" and n: "stk ! (2 * d) = StateNumber (int i)"
    and p: "\<forall>it \<in> set (itemSet (state_store lr ! (states lr ! i))). pos it \<le> d"
    by blast
  from len have "stk \<noteq> []" by auto
  then have "last stk = stk ! (length stk - 1)" by (rule last_conv_nth)
  with len n have "last stk = StateNumber (int i)" by simp
  with len i p show ?thesis by blast
qed

lemma stack_inv_take:
  assumes inv: "stack_inv lr stk" and k: "2 * k + 1 \<le> length stk"
  shows "stack_inv lr (take (length stk - 2 * k) stk)"
proof -
  from inv obtain d where len: "length stk = 2 * d + 1"
    and all: "\<forall>k \<le> d. \<exists>i < length (states lr). stk ! (2 * k) = StateNumber (int i) \<and>
           (\<forall>it \<in> set (itemSet (state_store lr ! (states lr ! i))). pos it \<le> k)"
    unfolding stack_inv_def by blast
  from k len have kd: "k \<le> d" by simp
  let ?t = "take (length stk - 2 * k) stk"
  have l2: "length ?t = 2 * (d - k) + 1" using len kd by simp
  have "\<exists>i < length (states lr). ?t ! (2 * m) = StateNumber (int i) \<and>
           (\<forall>it \<in> set (itemSet (state_store lr ! (states lr ! i))). pos it \<le> m)"
    if m: "m \<le> d - k" for m
  proof -
    from m kd have md: "m \<le> d" by simp
    from m kd len have "2 * m < length stk - 2 * k" by simp
    then have "?t ! (2 * m) = stk ! (2 * m)" by simp
    with all md show ?thesis by simp
  qed
  with l2 show ?thesis unfolding stack_inv_def by blast
qed

lemma stack_inv_push:
  assumes inv: "stack_inv lr stk" and top: "last stk = StateNumber (int i)"
    and j: "j < length (states lr)" and p: "pred_ok lr (states lr ! i) (states lr ! j)"
  shows "stack_inv lr (stk @ [X, StateNumber (int j)])"
proof -
  from inv obtain d where len: "length stk = 2 * d + 1"
    and all: "\<forall>k \<le> d. \<exists>i < length (states lr). stk ! (2 * k) = StateNumber (int i) \<and>
           (\<forall>it \<in> set (itemSet (state_store lr ! (states lr ! i))). pos it \<le> k)"
    unfolding stack_inv_def by blast
  from stack_inv_top [OF inv] len top
  have pi: "\<forall>it \<in> set (itemSet (state_store lr ! (states lr ! i))). pos it \<le> d" by auto
  have pj: "pos it \<le> Suc d" if it: "it \<in> set (itemSet (state_store lr ! (states lr ! j)))" for it
  proof (cases "0 < pos it")
    case True
    with p it have "core it \<in> seed_cores (itemSet (state_store lr ! (states lr ! i)))"
      unfolding pred_ok_def by blast
    then obtain x where x: "x \<in> set (itemSet (state_store lr ! (states lr ! i)))"
      and "pos it = Suc (pos x)"
      by (auto simp: seed_cores_def core_def)
    with pi show ?thesis by auto
  qed simp
  let ?n = "stk @ [X, StateNumber (int j)]"
  have l2: "length ?n = 2 * Suc d + 1" using len by simp
  have "\<exists>i < length (states lr). ?n ! (2 * k) = StateNumber (int i) \<and>
           (\<forall>it \<in> set (itemSet (state_store lr ! (states lr ! i))). pos it \<le> k)"
    if k: "k \<le> Suc d" for k
  proof (cases "k \<le> d")
    case True
    with len have "2 * k < length stk" by simp
    then have "?n ! (2 * k) = stk ! (2 * k)" by (simp add: nth_append)
    with all True show ?thesis by simp
  next
    case False
    with k have kk: "k = Suc d" by simp
    with len have "2 * k = length stk + 1" by simp
    then have "?n ! (2 * k) = StateNumber (int j)" by (simp add: nth_append)
    with j pj kk show ?thesis by blast
  qed
  with l2 show ?thesis unfolding stack_inv_def by blast
qed

lemma table_row_Inr:
  assumes "table_row tbl stk = Inr row"
  shows "\<exists>n. stk \<noteq> [] \<and> last stk = StateNumber n \<and> 0 \<le> n \<and> nat n < length (rows tbl) \<and>
           row = rows tbl ! nat n"
  using assms unfolding table_row_def
  by (auto split: if_splits stack_item.splits)

lemma find_entry_Some:
  "find_entry row tk = Some entry \<Longrightarrow> \<exists>k. map_of (actionEntries row) k = Some entry"
  unfolding find_entry_def by (auto split: option.splits if_splits)

lemma generated_row:
  assumes gen: "generated lr tbl" and inv: "stack_inv lr stk"
    and row: "table_row tbl stk = Inr row"
  shows "\<exists>d i. length stk = 2 * d + 1 \<and> last stk = StateNumber (int i) \<and>
           i < length (states lr) \<and>
           (\<forall>it \<in> set (itemSet (state_store lr ! (states lr ! i))). pos it \<le> d) \<and>
           row_ok lr row i"
proof -
  from stack_inv_top [OF inv] obtain d i where len: "length stk = 2 * d + 1"
    and top: "last stk = StateNumber (int i)" and i: "i < length (states lr)"
    and p: "\<forall>it \<in> set (itemSet (state_store lr ! (states lr ! i))). pos it \<le> d" by blast
  from table_row_Inr [OF row] top have r: "row = rows tbl ! i" by auto
  from gen i have "row_ok lr (rows tbl ! i) i" unfolding generated_def by simp
  with r len top i p show ?thesis by blast
qed

lemma generated_reduce:
  assumes gen: "generated lr tbl" and inv: "stack_inv lr stk"
    and row: "table_row tbl stk = Inr row"
    and ent: "find_entry row tk = Some entry" and sh: "\<not> shift entry"
  shows "0 \<le> entry_value entry \<and> nat (entry_value entry) < length (rules lr) \<and>
         2 * length (rhs (rules lr ! nat (entry_value entry))) + 1 \<le> length stk"
proof -
  from generated_row [OF gen inv row] obtain d i where len: "length stk = 2 * d + 1"
    and i: "i < length (states lr)"
    and p: "\<forall>it \<in> set (itemSet (state_store lr ! (states lr ! i))). pos it \<le> d"
    and ok: "row_ok lr row i" by blast
  from find_entry_Some [OF ent] obtain k where "map_of (actionEntries row) k = Some entry" ..
  with ok sh obtain it where it: "it \<in> set (itemSet (state_store lr ! (states lr ! i)))"
    and c: "pos it = length (rhs (rule it))" and v: "entry_value entry = rule_index (rule it)"
    unfolding row_ok_def by (metis (no_types, lifting))
  from i have "states lr ! i \<in> set (states lr)" by simp
  with gen it have r: "0 \<le> rule_index (rule it) \<and> nat (rule_index (rule it)) < length (rules lr) \<and>
         rules lr ! nat (rule_index (rule it)) = rule it"
    unfolding generated_def by blast
  from p it c have "length (rhs (rule it)) \<le> d" by auto
  with r v len show ?thesis by simp
qed

lemma generated_push:
  assumes gen: "generated lr tbl" and inv: "stack_inv lr stk"
    and row: "table_row tbl stk = Inr row"
    and ent: "map_of (gotoEntries row) k = Some g \<or>
              (map_of (actionEntries row) k = Some g \<and> shift g)"
  shows "stack_inv lr (stk @ [X, StateNumber (entry_value g)])"
proof -
  from generated_row [OF gen inv row] obtain d i where
    top: "last stk = StateNumber (int i)" and ok: "row_ok lr row i" by blast
  from ent ok obtain j where j: "j < length (states lr)" and v: "entry_value g = int j"
    and p: "pred_ok lr (states lr ! i) (states lr ! j)"
    unfolding row_ok_def by (metis (no_types, lifting))
  from stack_inv_push [OF inv top j p] v show ?thesis by simp
qed

text \<open>
  A reduction to a left-hand side that is the name of an inherited member and has no goto
  entry pushes \<^verbatim>\<open>undefined\<close>; the next round then ends with a \<open>TypeError\<close>.
\<close>

definition stack_ok :: "LR1 \<Rightarrow> stack_item list \<Rightarrow> bool" where
  "stack_ok lr stk = (stack_inv lr stk \<or> (stk \<noteq> [] \<and> last stk = Undefined))"

lemma stack_ok_row:
  assumes "stack_ok lr stk" and "table_row tbl stk = Inr row"
  shows "stack_inv lr stk"
proof -
  from table_row_Inr [OF assms(2)] have "last stk \<noteq> Undefined" by auto
  with assms(1) show ?thesis unfolding stack_ok_def by blast
qed

lemma parse_step_inv:
  assumes gen: "generated lr tbl" and ok: "stack_ok lr (stack ps)"
    and step: "parse_step tbl (rules lr) cbs ps = Continue ps'"
  shows "stack_ok lr (stack ps')"
proof -
  from step obtain row entry where row: "table_row tbl (stack ps) = Inr row"
    and ent: "find_entry row (lexer_getToken (lexer ps)) = Some entry"
    and act: "parse_action tbl (rules lr) cbs entry ps = Continue ps'"
    unfolding parse_step_def by (auto split: sum.splits option.splits)
  from stack_ok_row [OF ok row] have inv: "stack_inv lr (stack ps)" .
  from find_entry_Some [OF ent] obtain k where k: "map_of (actionEntries row) k = Some entry" ..
  show ?thesis
  proof (cases "shift entry")
    case True
    with act have "stack ps' = stack ps @
        [Token (lexer_getToken (lexer ps)), StateNumber (entry_value entry)]"
      unfolding parse_action_def by auto
    with generated_push [OF gen inv row, of k entry] k True show ?thesis
      unfolding stack_ok_def by simp
  next
    case False
    let ?r = "rules lr ! nat (entry_value entry)"
    let ?stk = "take (length (stack ps) - 2 * length (rhs ?r)) (stack ps)"
    from generated_reduce [OF gen inv row ent False] have
      idx: "\<not> (entry_value entry < 0 \<or> nat (entry_value entry) \<ge> length (rules lr))"
      and b: "2 * length (rhs ?r) + 1 \<le> length (stack ps)" by auto
    from b have b': "2 * length (rhs ?r) \<le> length (stack ps)" by simp
    from act False have red: "parse_reduce tbl (rules lr) cbs entry ps = Continue ps'"
      unfolding parse_action_def by simp
    from red obtain u where
      g: "reduce_goto tbl ?r (entry_value entry = 0) (ps\<lparr>stack := ?stk, user := u\<rparr>) = Continue ps'"
      unfolding parse_reduce_def if_not_P [OF idx] js_splice_tail [OF b'] fst_conv snd_conv
      by (auto split: sum.splits)
    from stack_inv_take [OF inv b] have inv2: "stack_inv lr ?stk" .
    from g obtain row2 where row2: "table_row tbl ?stk = Inr row2"
      and alt: "(\<exists>g2. map_of (gotoEntries row2) (lhs ?r) = Some g2 \<and>
             stack ps' = ?stk @ [NonTerminalId (lhs ?r), StateNumber (entry_value g2)]) \<or>
          stack ps' = ?stk @ [NonTerminalId (lhs ?r), Undefined]"
      unfolding reduce_goto_def by (auto split: if_splits sum.splits option.splits)
    from alt show ?thesis
    proof
      assume "\<exists>g2. map_of (gotoEntries row2) (lhs ?r) = Some g2 \<and>
             stack ps' = ?stk @ [NonTerminalId (lhs ?r), StateNumber (entry_value g2)]"
      then obtain g2 where g2: "map_of (gotoEntries row2) (lhs ?r) = Some g2"
        and ps': "stack ps' = ?stk @ [NonTerminalId (lhs ?r), StateNumber (entry_value g2)]"
        by blast
      from generated_push [OF gen inv2 row2, of "lhs ?r" g2] g2 ps' show ?thesis
        unfolding stack_ok_def by simp
    next
      assume "stack ps' = ?stk @ [NonTerminalId (lhs ?r), Undefined]"
      then show ?thesis unfolding stack_ok_def by simp
    qed
  qed
qed

lemma parse_steps_inv:
  assumes gen: "generated lr tbl"
  shows "stack_ok lr (stack ps0) \<Longrightarrow> parse_steps tbl (rules lr) cbs n ps0 = Some ps \<Longrightarrow>
     stack_ok lr (stack ps)"
proof (induction n arbitrary: ps0)
  case 0
  then show ?case by simp
next
  case (Suc n)
  from Suc.prems(2) obtain ps1 where c: "parse_step tbl (rules lr) cbs ps0 = Continue ps1"
    and r: "parse_steps tbl (rules lr) cbs n ps1 = Some ps"
    by (auto split: step_result.splits)
  from parse_step_inv [OF gen Suc.prems(1) c] have "stack_ok lr (stack ps1)" .
  from Suc.IH [OF this r] show ?case .
qed

lemma reachable_reduce:
  assumes run: "calcTable lr = Some (Inr tbl, lr')" and fresh: "states lr = []"
    and reach: "parse_steps tbl (rules lr') cbs n \<lparr>stack = [StateNumber 0], lexer = lx, user = u\<rparr> = Some ps"
    and row: "table_row tbl (stack ps) = Inr row"
    and ent: "find_entry row (lexer_getToken (lexer ps)) = Some entry"
    and sh: "\<not> shift entry"
  shows "0 \<le> entry_value entry \<and> nat (entry_value entry) < length (rules lr') \<and>
         2 * length (rhs (rules lr' ! nat (entry_value entry))) + 1 \<le> length (stack ps)"
proof -
  from calcTable_generated [OF run fresh] have gen: "generated lr' tbl" .
  from table_row_Inr [OF row] have "rows tbl \<noteq> []" by auto
  with gen have "states lr' \<noteq> []" unfolding generated_def by auto
  from stack_inv_init [OF gen this]
  have "stack_ok lr' (stack \<lparr>stack = [StateNumber 0], lexer = lx, user = u\<rparr>)"
    unfolding stack_ok_def by simp
  from parse_steps_inv [OF gen this reach] have "stack_ok lr' (stack ps)" .
  from stack_ok_row [OF this row] have "stack_inv lr' (stack ps)" .
  from generated_reduce [OF gen this row ent sh] show ?thesis .
qed

text \<open>
  Reductions on an object that is used once. Let \<open>calcTable\<close> return the table on an
  object that has no admitted states yet, and let the parse with this table and the rules
  of the object have run \<open>n\<close> rounds from the stack \<open>[0]\<close>. In a round whose action is a
  reduction by the rule \<open>r\<close>, the stack holds more than \<open>2 |rhs r|\<close> slots; the callback of
  \<open>r\<close> is called with the slots \<open>len - 2k + 2i\<close> of the stack for the right-hand-side
  positions \<open>i\<close> that are terminals, in the order of the right-hand side; and the round goes
  on with the stack without its last \<open>2 |rhs r|\<close> slots. So a reduction finds too few slots
  only through the states that an earlier \<open>calcTable\<close> has left in the object.
\<close>

lemma reduce_pops_first_calcTable:
  assumes "calcTable lr = Some (Inr tbl, lr')" and "states lr = []"
    and "parse_steps tbl (rules lr') cbs n \<lparr>stack = [StateNumber 0], lexer = lx, user = u\<rparr> = Some ps"
    and "table_row tbl (stack ps) = Inr row"
    and "find_entry row (lexer_getToken (lexer ps)) = Some entry"
    and "\<not> shift entry"
    and "r = rules lr' ! nat (entry_value entry)"
  shows "2 * length (rhs r) < length (stack ps) \<and>
     parse_step tbl (rules lr') cbs ps =
     (case (if callBackId r = [] then Inr (user ps)
            else if \<not> js_in (callBackId r) (registered cbs)
            then Inl (UnimplementedCallback (callBackId r))
            else (case registered cbs (callBackId r) of
                    Some f \<Rightarrow>
                      f (map (\<lambda>i. stack ps ! (length (stack ps) - 2 * length (rhs r) + 2 * i))
                           (filter (\<lambda>i. item_type (rhs r ! i) = Terminal) [0 ..< length (rhs r)]))
                        (user ps)
                  | None \<Rightarrow>
                      inherited cbs (callBackId r)
                        (map (\<lambda>i. stack ps ! (length (stack ps) - 2 * length (rhs r) + 2 * i))
                           (filter (\<lambda>i. item_type (rhs r ! i) = Terminal) [0 ..< length (rhs r)]))
                        (user ps))) of
        Inl e \<Rightarrow> Failed e
      | Inr u \<Rightarrow>
          reduce_goto tbl r (entry_value entry = 0)
            (ps\<lparr>stack := take (length (stack ps) - 2 * length (rhs r)) (stack ps), user := u\<rparr>))"
proof -
  from reachable_reduce [OF assms(1-6)] assms(7) have
    i0: "0 \<le> entry_value entry" and i1: "nat (entry_value entry) < length (rules lr')"
    and b: "2 * length (rhs r) + 1 \<le> length (stack ps)" by simp_all
  from b have b': "2 * length (rhs r) \<le> length (stack ps)" by simp
  from b have "2 * length (rhs r) < length (stack ps)" by simp
  with parse_step_reduce [OF assms(4-6) i0 i1 assms(7) b', of cbs] show ?thesis by simp
qed

end
